theory Spec2Isabelle
  imports Complex_Main "HOL-Library.Word"
begin

section \<open>The time-series fixture generator \<open>scripts/gen-ts-data/gen-messages.py\<close>\<close>

text \<open>
  The script builds a catalog of (channel, subtopic, publisher, name) tuples in four nested
  loops, computes a grid of timestamps and writes one CSV line for every timestamp and every
  tuple. It is a module-level script; here its six configuration constants are the fields
  of \<open>config\<close>, and everything it obtains from its surroundings while it runs (the
  results of \<open>uuid.uuid4()\<close>, \<open>datetime.now()\<close>, the local-time rule of the platform
  that \<open>datetime.timestamp()\<close> consults, the results of \<open>random.random()\<close>) is a field
  of \<open>env\<close>. The \<open>print\<close> calls do not touch the file and are left out. The file is
  the list of the strings handed to \<open>f.write\<close>, in order.
\<close>

subsection \<open>Values of the Python runtime\<close>

datatype error = OverflowError | ZeroDivisionError | ValueError

type_synonym uuid = "128 word"

text \<open>A binary64 float is kept as a pair \<open>(m, e)\<close> that stands for \<open>m * 2 ^ e\<close>.\<close>

type_synonym double = "int \<times> int"

definition val :: "double \<Rightarrow> rat" where
  "val d = of_int (fst d) * 2 powi (snd d)"

record config =
  num_channels :: int
  num_subtopic :: int
  num_publisher :: int
  num_metrics :: int
  last_num_days :: int
  data_interval_minutes :: int

text \<open>
  \<open>uuid4 n\<close> and \<open>random53 n\<close> are what call number \<open>n\<close> (from 0) of
  \<open>uuid.uuid4()\<close> and of \<open>random.random()\<close> return; \<open>random.random()\<close> returns
  \<open>k / 2 ^ 53\<close> for a 53-bit \<open>k\<close>. \<open>now\<close> is the naive local
  \<open>datetime.now()\<close>, as the number of microseconds since 0001-01-01T00:00:00.
  \<open>utcoffset u\<close> is the local-time rule of the platform: the number of seconds that
  local time is ahead of UTC at POSIX second \<open>u\<close> (what \<open>time.localtime(u)\<close>
  reports as \<open>tm_gmtoff\<close>).
\<close>

record env =
  uuid4 :: "nat \<Rightarrow> uuid"
  now :: int
  utcoffset :: "int \<Rightarrow> int"
  random53 :: "nat \<Rightarrow> 53 word"

record row =
  channel :: uuid
  subtopic :: string
  publisher :: uuid
  name :: string

subsection \<open>Text of integers and identifiers\<close>

definition digit_char :: "nat \<Rightarrow> char" where
  "digit_char d = ''0123456789'' ! d"

fun str_nat :: "nat \<Rightarrow> string" where
  "str_nat n = (if n < 10 then [digit_char n]
                else str_nat (n div 10) @ [digit_char (n mod 10)])"

text \<open>\<open>str(i)\<close> for a Python int.\<close>

definition str_int :: "int \<Rightarrow> string" where
  "str_int i = (if i < 0 then CHR ''-'' # str_nat (nat (- i)) else str_nat (nat i))"

definition hex_char :: "nat \<Rightarrow> char" where
  "hex_char d = ''0123456789abcdef'' ! d"

text \<open>\<open>'%032x' % u.int\<close>: the 32 hexadecimal digits, most significant first.\<close>

definition hex32 :: "uuid \<Rightarrow> string" where
  "hex32 u = map (\<lambda>i. hex_char (unat (drop_bit (4 * (31 - i)) u) mod 16)) [0..<32]"

text \<open>\<open>str(u)\<close> for a \<open>uuid.UUID\<close>: the digits in groups of 8-4-4-4-12.\<close>

definition str_uuid :: "uuid \<Rightarrow> string" where
  "str_uuid u = (let h = hex32 u
     in take 8 h @ ''-'' @ take 4 (drop 8 h) @ ''-'' @ take 4 (drop 12 h) @ ''-''
        @ take 4 (drop 16 h) @ ''-'' @ drop 20 h)"

subsection \<open>Binary64 arithmetic\<close>

text \<open>The number of binary digits of a positive integer.\<close>

function bitlen :: "int \<Rightarrow> int" where
  "bitlen p = (if p \<le> 0 then 0 else 1 + bitlen (p div 2))"
  by pat_completeness auto
termination
  by (relation "measure nat") auto

text \<open>\<open>ilog2 p q\<close>, for positive \<open>p\<close> and \<open>q\<close>, is the \<open>c\<close> with
  \<open>2 ^ c \<le> p / q < 2 ^ (c + 1)\<close>.\<close>

definition ilog2 :: "int \<Rightarrow> int \<Rightarrow> int" where
  "ilog2 p q = (let c = bitlen p - bitlen q
     in if (if 0 \<le> c then q * 2 ^ nat c \<le> p else q \<le> p * 2 ^ nat (- c)) then c else c - 1)"

text \<open>\<open>p / q\<close> rounded to the nearest integer, ties to the even one (\<open>q\<close> positive).\<close>

definition round_div :: "int \<Rightarrow> int \<Rightarrow> int" where
  "round_div p q = (let n = p div q; r = p mod q
     in if 2 * r < q then n else if q < 2 * r then n + 1
        else if even n then n else n + 1)"

text \<open>\<open>(p / q) / 2 ^ e\<close> rounded to the nearest integer, ties to even.\<close>

definition round_scaled :: "int \<Rightarrow> int \<Rightarrow> int \<Rightarrow> int" where
  "round_scaled e p q = (if 0 \<le> e then round_div p (q * 2 ^ nat e)
                         else round_div (p * 2 ^ nat (- e)) q)"

text \<open>
  \<open>fl p q\<close> is the binary64 number nearest to \<open>p / q\<close> (\<open>q\<close> positive), ties to
  even. Its exponent \<open>fl_exp p q\<close> leaves 53 significant bits, and is \<open>-1074\<close> in the
  subnormal range. A result of magnitude \<open>2 ^ 1024\<close> or more stands for an infinity
  (\<open>is_inf\<close>).
\<close>

definition fl_exp :: "int \<Rightarrow> int \<Rightarrow> int" where
  "fl_exp p q = max (ilog2 \<bar>p\<bar> q - 52) (- 1074)"

definition fl :: "int \<Rightarrow> int \<Rightarrow> double" where
  "fl p q = (if p = 0 then (0, 0) else (round_scaled (fl_exp p q) p q, fl_exp p q))"

definition is_inf :: "double \<Rightarrow> bool" where
  "is_inf d = (2 ^ 1024 \<le> \<bar>val d\<bar>)"

text \<open>The binary64 number nearest to \<open>s * 2 ^ e\<close>.\<close>

definition fl_dyadic :: "int \<Rightarrow> int \<Rightarrow> double" where
  "fl_dyadic s e = (if 0 \<le> e then fl (s * 2 ^ nat e) 1 else fl s (2 ^ nat (- e)))"

definition double_of_int :: "int \<Rightarrow> double" where
  "double_of_int n = fl n 1"

definition double_add :: "double \<Rightarrow> double \<Rightarrow> double" where
  "double_add x y = (let e = min (snd x) (snd y)
     in fl_dyadic (fst x * 2 ^ nat (snd x - e) + fst y * 2 ^ nat (snd y - e)) e)"

definition double_mul :: "double \<Rightarrow> double \<Rightarrow> double" where
  "double_mul x y = fl_dyadic (fst x * fst y) (snd x + snd y)"

text \<open>\<open>a / b\<close> for two Python ints: the correctly rounded quotient.\<close>

definition int_truediv :: "int \<Rightarrow> int \<Rightarrow> error + double" where
  "int_truediv a b =
     (if b = 0 then Inl ZeroDivisionError
      else let d = (if 0 < b then fl a b else fl (- a) (- b))
           in if is_inf d then Inl OverflowError else Inr d)"

text \<open>\<open>int(x)\<close> for a finite float: truncation towards zero.\<close>

definition int_of_double :: "double \<Rightarrow> int" where
  "int_of_double d = (let m = fst d; e = snd d
     in if 0 \<le> e then m * 2 ^ nat e
        else if 0 \<le> m then m div 2 ^ nat (- e)
        else - ((- m) div 2 ^ nat (- e)))"

text \<open>\<open>random.uniform(a, b)\<close> is \<open>a + (b - a) * self.random()\<close>, for ints \<open>a\<close>,
  \<open>b\<close> and the float \<open>r\<close> that \<open>random()\<close> returned.\<close>

definition uniform :: "int \<Rightarrow> int \<Rightarrow> double \<Rightarrow> double" where
  "uniform a b r = double_add (double_of_int a) (double_mul (double_of_int (b - a)) r)"

definition random :: "env \<Rightarrow> nat \<Rightarrow> double" where
  "random en k = (uint (random53 en k), - 53)"

subsection \<open>Text of a float\<close>

text \<open>
  Inside an f-string a float is formatted with an empty format specification, which gives
  \<open>repr\<close>: the shortest decimal text that reads back as the same float and, among those of
  that length, the one nearest to it (CPython's \<open>float_repr\<close>, in mode 0 of its
  \<open>dtoa\<close>); a tie between two nearest ones goes to the even last digit. The floats here
  are finite.

  \<open>up10 p q\<close>, for positive \<open>p\<close> and \<open>q\<close>, is the least \<open>j\<close> with
  \<open>q \<le> p * 10 ^ j\<close>, and \<open>decpt p q\<close> is the \<open>D\<close> with
  \<open>10 ^ (D - 1) \<le> p / q < 10 ^ D\<close>.
\<close>

function up10 :: "int \<Rightarrow> int \<Rightarrow> nat" where
  "up10 p q = (if q \<le> p \<or> p \<le> 0 then 0 else Suc (up10 (10 * p) q))"
  by pat_completeness auto
termination
  by (relation "measure (\<lambda>(p, q). nat (q - p))") auto

definition decpt :: "int \<Rightarrow> int \<Rightarrow> int" where
  "decpt p q = (if q \<le> p then int (length (str_nat (nat (p div q)))) else 1 - int (up10 p q))"

text \<open>\<open>float(s)\<close> for the decimal text of \<open>c * 10 ^ k\<close>: the nearest binary64 number.\<close>

definition strtod :: "int \<Rightarrow> int \<Rightarrow> double" where
  "strtod c k = (if 0 \<le> k then fl (c * 10 ^ nat k) 1 else fl c (10 ^ nat (- k)))"

text \<open>Two pairs stand for the same number.\<close>

definition same_double :: "double \<Rightarrow> double \<Rightarrow> bool" where
  "same_double x y = (let e = min (snd x) (snd y)
     in fst x * 2 ^ nat (snd x - e) = fst y * 2 ^ nat (snd y - e))"

text \<open>\<open>p / q\<close> is nearer to \<open>lo * 10 ^ k\<close> than to \<open>(lo + 1) * 10 ^ k\<close>, or as near
  and \<open>lo\<close> is even.\<close>

definition closer_lo :: "int \<Rightarrow> int \<Rightarrow> int \<Rightarrow> int \<Rightarrow> bool" where
  "closer_lo p q lo k =
     (let a = (if 0 \<le> k then 2 * p else 2 * p * 10 ^ nat (- k));
          b = (if 0 \<le> k then (2 * lo + 1) * 10 ^ nat k * q else (2 * lo + 1) * q)
      in a < b \<or> (a = b \<and> even lo))"

text \<open>
  The decimal of \<open>n\<close> digits that stands for the float \<open>d = p / q\<close>, if there is one:
  of the two decimals \<open>lo * 10 ^ (D - n)\<close> and \<open>(lo + 1) * 10 ^ (D - n)\<close> around
  \<open>p / q\<close>, the nearer one among those that read back as \<open>d\<close>.
\<close>

definition pick :: "double \<Rightarrow> int \<Rightarrow> int \<Rightarrow> int \<Rightarrow> int \<Rightarrow> int option" where
  "pick d p q D n =
     (let k = D - n;
          lo = (if 0 \<le> k then p div (q * 10 ^ nat k) else (p * 10 ^ nat (- k)) div q);
          okl = same_double (strtod lo k) d;
          okh = same_double (strtod (lo + 1) k) d
      in if okl \<and> (\<not> okh \<or> closer_lo p q lo k) then Some lo
         else if okh then Some (lo + 1) else None)"

definition strip_zeros :: "string \<Rightarrow> string" where
  "strip_zeros s = rev (dropWhile (\<lambda>c. c = CHR ''0'') (rev s))"

text \<open>The digits and the position of the decimal point: the float is \<open>0.d\<^sub>1d\<^sub>2\<dots> * 10 ^ dp\<close>.
  Seventeen digits always suffice.\<close>

fun shortest_from :: "double \<Rightarrow> int \<Rightarrow> int \<Rightarrow> int \<Rightarrow> int list \<Rightarrow> string \<times> int" where
  "shortest_from d p q D [] = (''0'', 1)"
| "shortest_from d p q D (n # ns) =
     (case pick d p q D n of
        None \<Rightarrow> shortest_from d p q D ns
      | Some c \<Rightarrow> (strip_zeros (str_nat (nat c)), D + (int (length (str_nat (nat c))) - n)))"

definition shortest :: "double \<Rightarrow> string \<times> int" where
  "shortest d =
     (let p = (if 0 \<le> snd d then fst d * 2 ^ nat (snd d) else fst d);
          q = (if 0 \<le> snd d then 1 else 2 ^ nat (- snd d))
      in shortest_from d p q (decpt p q) [1..17])"

text \<open>The exponent as \<open>'%+.02d'\<close> writes it.\<close>

definition exp_text :: "int \<Rightarrow> string" where
  "exp_text ex = (if ex < 0 then CHR ''-'' else CHR ''+'')
                   # (if \<bar>ex\<bar> < 10 then ''0'' else []) @ str_nat (nat \<bar>ex\<bar>)"

text \<open>The layout of \<open>repr\<close>: exponent notation below \<open>10 ^ -4\<close> and from \<open>10 ^ 16\<close>,
  positional notation with at least one digit after the point otherwise.\<close>

definition format_float_short :: "string \<Rightarrow> int \<Rightarrow> string" where
  "format_float_short digits dp =
     (let L = int (length digits)
      in if dp \<le> - 4 \<or> 16 < dp
           then take 1 digits @ (if 1 < L then CHR ''.'' # drop 1 digits else [])
                @ CHR ''e'' # exp_text (dp - 1)
         else if dp \<le> 0 then ''0.'' @ replicate (nat (- dp)) (CHR ''0'') @ digits
         else if dp < L then take (nat dp) digits @ CHR ''.'' # drop (nat dp) digits
         else digits @ replicate (nat (dp - L)) (CHR ''0'') @ ''.0'')"

definition repr_float :: "double \<Rightarrow> string" where
  "repr_float d =
     (if fst d = 0 then ''0.0''
      else if fst d < 0
        then CHR ''-'' # format_float_short (fst (shortest (- fst d, snd d)))
                                           (snd (shortest (- fst d, snd d)))
      else format_float_short (fst (shortest d)) (snd (shortest d)))"

subsection \<open>\<open>datetime\<close> and \<open>timedelta\<close>\<close>

text \<open>
  A \<open>timedelta\<close> is a number of microseconds whose whole days lie within
  \<open>\<plusminus> 999999999\<close>; a naive \<open>datetime\<close> is a number of microseconds since
  0001-01-01T00:00:00, before the end of the year 9999 (day 3652059). The constructors
  and the arithmetic raise \<open>OverflowError\<close> outside these ranges.
\<close>

definition timedelta_new :: "int \<Rightarrow> error + int" where
  "timedelta_new us =
     (if - 999999999 \<le> us div 86400000000 \<and> us div 86400000000 \<le> 999999999
      then Inr us else Inl OverflowError)"

definition timedelta_days :: "int \<Rightarrow> error + int" where
  "timedelta_days d = timedelta_new (d * 86400000000)"

definition timedelta_minutes :: "int \<Rightarrow> error + int" where
  "timedelta_minutes m = timedelta_new (m * 60000000)"

definition timedelta_mul :: "int \<Rightarrow> int \<Rightarrow> error + int" where
  "timedelta_mul i td = timedelta_new (i * td)"

definition datetime_new :: "int \<Rightarrow> error + int" where
  "datetime_new us =
     (if 0 \<le> us div 86400000000 \<and> us div 86400000000 < 3652059
      then Inr us else Inl OverflowError)"

definition datetime_add :: "int \<Rightarrow> int \<Rightarrow> error + int" where
  "datetime_add dt td = datetime_new (dt + td)"

definition datetime_sub :: "int \<Rightarrow> int \<Rightarrow> error + int" where
  "datetime_sub dt td = datetime_new (dt - td)"

text \<open>
  \<open>local(u)\<close> of \<open>datetime._mktime\<close>: the local wall-clock time at POSIX second
  \<open>u\<close>, counted in seconds from 1970-01-01T00:00:00 like \<open>u\<close>. It is built as a
  \<open>datetime\<close>, which raises \<open>ValueError\<close> (\<open>year 0 is out of range\<close>) outside
  the years 1 to 9999, that is before second \<open>-62135596800\<close> and from second
  \<open>253402300800\<close>.
\<close>

definition local :: "env \<Rightarrow> int \<Rightarrow> error + int" where
  "local en u =
     (let w = u + utcoffset en u
      in if - 62135596800 \<le> w \<and> w < 253402300800 then Inr w else Inl ValueError)"

text \<open>
  \<open>datetime._mktime\<close> for a datetime of \<open>fold = 0\<close> whose wall-clock second, counted
  from 1970-01-01T00:00:00, is \<open>t\<close>: the POSIX second \<open>u\<close> with \<open>local(u) = t\<close>.
  It tries the offset \<open>a\<close> in force at \<open>t\<close> and, one day earlier, the offset \<open>b\<close>;
  in a gap of local time it returns the later of the two candidates.
\<close>

definition mktime :: "env \<Rightarrow> int \<Rightarrow> error + int" where
  "mktime en t =
     (case local en t of Inl err \<Rightarrow> Inl err | Inr lt \<Rightarrow>
        let a = lt - t; u1 = t - a
        in (case local en u1 of Inl err \<Rightarrow> Inl err | Inr t1 \<Rightarrow>
             (case (if t1 = t
                    then (case local en (u1 - 86400) of Inl err \<Rightarrow> Inl err
                          | Inr lt2 \<Rightarrow> Inr (lt2 - (u1 - 86400)))
                    else Inr (t1 - u1))
              of Inl err \<Rightarrow> Inl err
               | Inr b \<Rightarrow>
                   if t1 = t \<and> a = b then Inr u1
                   else (case local en (t - b) of Inl err \<Rightarrow> Inl err
                         | Inr t2 \<Rightarrow>
                             if t2 = t then Inr (t - b)
                             else if t1 = t then Inr u1
                             else Inr (max u1 (t - b))))))"

text \<open>\<open>dt.timestamp()\<close> of a naive datetime: \<open>_mktime() + microsecond / 1e6\<close>.\<close>

definition timestamp :: "env \<Rightarrow> int \<Rightarrow> error + double" where
  "timestamp en dt =
     (case mktime en (dt div 1000000 - 62135596800) of Inl err \<Rightarrow> Inl err
      | Inr s \<Rightarrow> Inr (double_add (double_of_int s) (fl (dt mod 1000000) 1000000)))"

text \<open>\<open>timestamp.timestamp() * 1_000_000_000\<close>, and line 63:
  \<open>int(timestamp.timestamp() * 1_000_000_000)\<close>; \<open>int\<close> of an infinity raises
  \<open>OverflowError\<close>.\<close>

definition ns_float :: "double \<Rightarrow> double" where
  "ns_float t = double_mul t (double_of_int 1000000000)"

definition timestamp_ns :: "env \<Rightarrow> int \<Rightarrow> error + int" where
  "timestamp_ns en dt =
     (case timestamp en dt of Inl err \<Rightarrow> Inl err
      | Inr t \<Rightarrow> if is_inf (ns_float t) then Inl OverflowError
                 else Inr (int_of_double (ns_float t)))"

subsection \<open>EntityCatalog: lines 28 to 42\<close>

text \<open>The state of the loops is the list \<open>rows\<close> and the number of \<open>uuid4\<close> calls made.\<close>

fun name_loop :: "uuid \<Rightarrow> string \<Rightarrow> uuid \<Rightarrow> int list \<Rightarrow> row list \<Rightarrow> row list" where
  "name_loop channel_id subtopic_s publisher_id [] rows = rows"
| "name_loop channel_id subtopic_s publisher_id (name_idx # idxs) rows =
     name_loop channel_id subtopic_s publisher_id idxs
       (rows @ [\<lparr>channel = channel_id, subtopic = subtopic_s, publisher = publisher_id,
                 name = ''metric_'' @ str_int name_idx\<rparr>])"

fun publisher_loop ::
  "config \<Rightarrow> env \<Rightarrow> uuid \<Rightarrow> string \<Rightarrow> int list \<Rightarrow> row list \<times> nat \<Rightarrow> row list \<times> nat" where
  "publisher_loop cfg en channel_id subtopic_s [] st = st"
| "publisher_loop cfg en channel_id subtopic_s (publisher_idx # idxs) st =
     (let publisher_id = uuid4 en (snd st)
      in publisher_loop cfg en channel_id subtopic_s idxs
           (name_loop channel_id subtopic_s publisher_id [1..num_metrics cfg] (fst st),
            Suc (snd st)))"

fun subtopic_loop ::
  "config \<Rightarrow> env \<Rightarrow> uuid \<Rightarrow> int list \<Rightarrow> row list \<times> nat \<Rightarrow> row list \<times> nat" where
  "subtopic_loop cfg en channel_id [] st = st"
| "subtopic_loop cfg en channel_id (subtopic_idx # idxs) st =
     subtopic_loop cfg en channel_id idxs
       (publisher_loop cfg en channel_id (''subtopic_'' @ str_int subtopic_idx)
          [1..num_publisher cfg] st)"

fun channel_loop :: "config \<Rightarrow> env \<Rightarrow> int list \<Rightarrow> row list \<times> nat \<Rightarrow> row list \<times> nat" where
  "channel_loop cfg en [] st = st"
| "channel_loop cfg en (channel_idx # idxs) st =
     (let channel_id = uuid4 en (snd st)
      in channel_loop cfg en idxs
           (subtopic_loop cfg en channel_id [1..num_subtopic cfg] (fst st, Suc (snd st))))"

definition catalog :: "config \<Rightarrow> env \<Rightarrow> row list" where
  "catalog cfg en = fst (channel_loop cfg en [1..num_channels cfg] ([], 0))"

text \<open>The number of \<open>uuid4\<close> calls the catalog makes.\<close>

definition uuid_calls :: "config \<Rightarrow> env \<Rightarrow> nat" where
  "uuid_calls cfg en = snd (channel_loop cfg en [1..num_channels cfg] ([], 0))"

text \<open>Every \<open>uuid4\<close> call among the first \<open>n\<close> returned a value not returned before.\<close>

definition fresh :: "env \<Rightarrow> nat \<Rightarrow> bool" where
  "fresh en n = distinct (map (uuid4 en) [0..<n])"

definition key :: "row \<Rightarrow> uuid \<times> string \<times> uuid \<times> string" where
  "key r = (channel r, subtopic r, publisher r, name r)"

subsection \<open>TimeGrid: lines 46 to 48\<close>

definition time_grid :: "config \<Rightarrow> env \<Rightarrow> error + (int \<times> int \<times> int)" where
  "time_grid cfg en =
     (case timedelta_days (last_num_days cfg) of Inl err \<Rightarrow> Inl err | Inr td \<Rightarrow>
       (case datetime_sub (now en) td of Inl err \<Rightarrow> Inl err | Inr start_time \<Rightarrow>
         (case timedelta_minutes (data_interval_minutes cfg) of Inl err \<Rightarrow> Inl err
          | Inr interval \<Rightarrow>
            (case int_truediv (last_num_days cfg * 24 * 60) (data_interval_minutes cfg) of
               Inl err \<Rightarrow> Inl err
             | Inr q \<Rightarrow> Inr (start_time, interval, int_of_double q)))))"

subsection \<open>RowEmitter: lines 58 to 66\<close>

definition header :: string where
  "header = ''time,channel,subtopic,publisher,protocol,name,unit,value'' @ [CHR 0x0A]"

text \<open>The f-string of line 66.\<close>

definition csv_line :: "int \<Rightarrow> row \<Rightarrow> double \<Rightarrow> string" where
  "csv_line ts r v =
     str_int ts @ '','' @ str_uuid (channel r) @ '','' @ subtopic r @ '','' @
     str_uuid (publisher r) @ '',mqtt,'' @ name r @ '',unit,'' @ repr_float v @
     [CHR 0x0A]"

text \<open>The inner loop; the state is the file and the number of \<open>random()\<close> calls made.\<close>

fun row_loop :: "env \<Rightarrow> int \<Rightarrow> row list \<Rightarrow> string list \<times> nat \<Rightarrow> string list \<times> nat" where
  "row_loop en ts [] st = st"
| "row_loop en ts (r # rs) st =
     (let v = uniform 0 100 (random en (snd st))
      in row_loop en ts rs (fst st @ [csv_line ts r v], Suc (snd st)))"

text \<open>The outer loop. Lines 62 and 63 may raise; the loop then ends with the exception and
  the file as it is.\<close>

fun interval_loop ::
  "env \<Rightarrow> row list \<Rightarrow> int \<Rightarrow> int \<Rightarrow> int list \<Rightarrow> string list \<times> nat
     \<Rightarrow> error \<times> string list + string list \<times> nat"
  where
  "interval_loop en rows start_time interval [] st = Inr st"
| "interval_loop en rows start_time interval (i # idxs) st =
     (case timedelta_mul i interval of Inl err \<Rightarrow> Inl (err, fst st) | Inr delta \<Rightarrow>
       (case datetime_add start_time delta of Inl err \<Rightarrow> Inl (err, fst st) | Inr t \<Rightarrow>
         (case timestamp_ns en t of Inl err \<Rightarrow> Inl (err, fst st) | Inr ts \<Rightarrow>
            interval_loop en rows start_time interval idxs (row_loop en ts rows st))))"

text \<open>
  The whole script. \<open>Done f\<close>: it ran to its end and \<open>messages.csv\<close> holds the strings
  \<open>f\<close>. \<open>Raised err None\<close>: the exception \<open>err\<close> ended it before the file was
  opened. \<open>Raised err (Some f)\<close>: the exception ended it inside the \<open>with\<close>
  statement, which closes the file; it holds the strings \<open>f\<close> written until then.
\<close>

datatype run = Done "string list" | Raised error "string list option"

definition main :: "config \<Rightarrow> env \<Rightarrow> run" where
  "main cfg en =
     (let rows = catalog cfg en
      in case time_grid cfg en of Inl err \<Rightarrow> Raised err None
         | Inr (start_time, interval, num_intervals) \<Rightarrow>
           (case interval_loop en rows start_time interval [0..num_intervals - 1] ([header], 0)
            of Inl (err, file) \<Rightarrow> Raised err (Some file) | Inr st \<Rightarrow> Done (fst st)))"

subsection \<open>Reading the file\<close>

text \<open>The strings written to the file by a run (none if it was not opened).\<close>

definition written :: "run \<Rightarrow> string list" where
  "written r = (case r of Done f \<Rightarrow> f | Raised err None \<Rightarrow> [] | Raised err (Some f) \<Rightarrow> f)"

text \<open>The lines of a text: what stands between its newline characters.\<close>

fun split_lines :: "string \<Rightarrow> string \<Rightarrow> string list" where
  "split_lines acc [] = (if acc = [] then [] else [acc])"
| "split_lines acc (c # cs) =
     (if c = CHR 0x0A then acc # split_lines [] cs else split_lines (acc @ [c]) cs)"

text \<open>The lines of the file: of the text that the strings written make up.\<close>

definition file_lines :: "string list \<Rightarrow> string list" where
  "file_lines f = split_lines [] (concat f)"

text \<open>The fields of a line: the text between its commas.\<close>

fun split_commas :: "string \<Rightarrow> string \<Rightarrow> string list" where
  "split_commas acc [] = [acc]"
| "split_commas acc (c # cs) =
     (if c = CHR '','' then acc # split_commas [] cs else split_commas (acc @ [c]) cs)"

definition fields :: "string \<Rightarrow> string list" where
  "fields line = split_commas [] line"

text \<open>The (subtopic, name) pair of a data line.\<close>

definition labels :: "string \<Rightarrow> string \<times> string" where
  "labels line = (fields line ! 2, fields line ! 5)"


text \<open>A text without a comma and without a newline.\<close>

definition plain :: "string \<Rightarrow> bool" where
  "plain s = (CHR '','' \<notin> set s \<and> CHR 0x0A \<notin> set s)"

text \<open>The data rows of a file: its lines after the first.\<close>

definition data_rows :: "string list \<Rightarrow> string list" where
  "data_rows f = tl (file_lines f)"

subsection \<open>Closed forms of the catalog\<close>

definition mk_row :: "uuid \<Rightarrow> string \<Rightarrow> uuid \<Rightarrow> int \<Rightarrow> row" where
  "mk_row c s p i = \<lparr>channel = c, subtopic = s, publisher = p, name = ''metric_'' @ str_int i\<rparr>"

text \<open>What one pass of the publisher loops and of the subtopic loops appends, when \<open>n\<close>
  calls of \<open>uuid4\<close> were made before.\<close>

definition pub_block :: "config \<Rightarrow> env \<Rightarrow> uuid \<Rightarrow> string \<Rightarrow> nat \<Rightarrow> row list" where
  "pub_block cfg en c s n =
     concat (map (\<lambda>k. map (mk_row c s (uuid4 en (n + k))) [1..num_metrics cfg])
               [0..<nat (num_publisher cfg)])"

definition chan_block :: "config \<Rightarrow> env \<Rightarrow> nat \<Rightarrow> row list" where
  "chan_block cfg en n =
     concat (map (\<lambda>j. pub_block cfg en (uuid4 en n) (''subtopic_'' @ str_int (1 + int j))
                         (Suc n + j * nat (num_publisher cfg)))
               [0..<nat (num_subtopic cfg)])"

text \<open>
  The tuple at position \<open>a\<close> of the catalog. \<open>q\<close> counts the publishers before it
  and \<open>i\<close> the channels before it; channel \<open>i\<close> got the result of call
  \<open>i * (S * P + 1)\<close> of \<open>uuid4\<close> and publisher \<open>q\<close> the result of call
  \<open>q + i + 1\<close>.
\<close>

definition entity :: "config \<Rightarrow> env \<Rightarrow> nat \<Rightarrow> row" where
  "entity cfg en a =
     (let S = nat (num_subtopic cfg); P = nat (num_publisher cfg); M = nat (num_metrics cfg);
          q = a div M; i = q div P div S
      in mk_row (uuid4 en (i * Suc (S * P)))
           (''subtopic_'' @ str_int (1 + int (q div P mod S)))
           (uuid4 en (Suc (q + i)))
           (1 + int (a mod M)))"

definition catalog_size :: "config \<Rightarrow> nat" where
  "catalog_size cfg =
     nat (num_channels cfg) * nat (num_subtopic cfg) * nat (num_publisher cfg)
       * nat (num_metrics cfg)"

subsection \<open>Some runs\<close>

text \<open>
  Two channels with one subtopic, one publisher and two metrics each; a window of one day
  sampled every 720 minutes. The generation instant is 2026-11-04T12:00:00.000001 and local
  time is UTC.
\<close>

definition cfg0 :: config where
  "cfg0 = \<lparr>num_channels = 2, num_subtopic = 1, num_publisher = 1, num_metrics = 2,
           last_num_days = 1, data_interval_minutes = 720\<rparr>"

definition env0 :: env where
  "env0 = \<lparr>uuid4 = (\<lambda>n. 7 * word_of_nat n + 3), now = 63929390400000001,
           utcoffset = (\<lambda>u. 0),
           random53 = (\<lambda>n. word_of_nat (n * 1000000007))\<rparr>"

text \<open>The run \<open>cfg0\<close> without metrics, and a second environment: other identifiers, a later
  generation instant (2026-11-05T00:00:00.5), other random draws.\<close>

definition cfg1 :: config where
  "cfg1 = cfg0\<lparr>num_metrics := 0\<rparr>"

definition env1 :: env where
  "env1 = \<lparr>uuid4 = (\<lambda>n. 11 * word_of_nat n + 5), now = 63929433600500000,
           utcoffset = (\<lambda>u. 0),
           random53 = (\<lambda>n. word_of_nat (n * 998244353 + 17))\<rparr>"

text \<open>
  One tuple, and a window of 739923 days with a single timestamp, its start. At the
  generation instant of \<open>env0\<close> the window starts at 0001-01-01T12:00:00.000001, at that
  of \<open>env1\<close> at 0001-01-02T00:00:00.5. \<open>cfg3\<close> is this run without metrics.
\<close>

definition cfg2 :: config where
  "cfg2 = \<lparr>num_channels = 1, num_subtopic = 1, num_publisher = 1, num_metrics = 1,
           last_num_days = 739923, data_interval_minutes = 1065489120\<rparr>"

definition cfg3 :: config where
  "cfg3 = cfg2\<lparr>num_metrics := 0\<rparr>"

text \<open>A run over the last 8000 days, sampled every 15 minutes, with one tuple.\<close>

definition cfg4 :: config where
  "cfg4 = \<lparr>num_channels = 1, num_subtopic = 1, num_publisher = 1, num_metrics = 1,
           last_num_days = 8000, data_interval_minutes = 15\<rparr>"

text \<open>
  A run over the last day, sampled every 15 minutes, with one tuple, at the generation
  instant 2026-03-29T12:00:00 on a platform whose local time goes from one hour to two
  hours ahead of UTC at POSIX second 1774746000 (2026-03-29T01:00:00Z, the start of summer
  time in central Europe).
\<close>

definition cfg5 :: config where
  "cfg5 = \<lparr>num_channels = 1, num_subtopic = 1, num_publisher = 1, num_metrics = 1,
           last_num_days = 1, data_interval_minutes = 15\<rparr>"

definition env5 :: env where
  "env5 = \<lparr>uuid4 = (\<lambda>n. 7 * word_of_nat n + 3), now = 63910382400000000,
           utcoffset = (\<lambda>u. if u < 1774746000 then 3600 else 7200),
           random53 = (\<lambda>n. word_of_nat (n * 1000000007))\<rparr>"

text \<open>The run \<open>cfg0\<close> with an interval of 0 minutes and no metrics.\<close>

definition cfg6 :: config where
  "cfg6 = cfg0\<lparr>num_metrics := 0, data_interval_minutes := 0\<rparr>"

subsection \<open>Closed forms of the emitter\<close>

text \<open>Timestamp number \<open>i\<close> of the time grid, as lines 62 and 63 compute it.\<close>

definition grid_ns :: "env \<Rightarrow> int \<Rightarrow> int \<Rightarrow> int \<Rightarrow> error + int" where
  "grid_ns en start_time interval i =
     (case timedelta_mul i interval of Inl err \<Rightarrow> Inl err | Inr delta \<Rightarrow>
       (case datetime_add start_time delta of Inl err \<Rightarrow> Inl err | Inr t \<Rightarrow>
          timestamp_ns en t))"

text \<open>The number of timestamps of the grid that are computed before lines 62 and 63 raise
  for the first time.\<close>

definition reached :: "env \<Rightarrow> int \<Rightarrow> int \<Rightarrow> int \<Rightarrow> nat" where
  "reached en start_time interval n =
     length (takeWhile (\<lambda>i. \<not> isl (grid_ns en start_time interval i)) [0..n - 1])"

text \<open>The lines one pass of the inner loop writes for the timestamp \<open>ts\<close>, when \<open>k\<close>
  calls of \<open>random()\<close> were made before.\<close>

definition lines_at :: "env \<Rightarrow> row list \<Rightarrow> int \<Rightarrow> nat \<Rightarrow> string list" where
  "lines_at en rows ts k =
     map (\<lambda>j. csv_line ts (rows ! j) (uniform 0 100 (random en (k + j)))) [0..<length rows]"

text \<open>Data line number \<open>k\<close> (from 0) of a run whose time grid starts at \<open>start_time\<close>
  and advances by \<open>interval\<close>.\<close>

definition data_line :: "config \<Rightarrow> env \<Rightarrow> int \<Rightarrow> int \<Rightarrow> nat \<Rightarrow> string" where
  "data_line cfg en start_time interval k =
     csv_line
       (projr (grid_ns en start_time interval (int (k div length (catalog cfg en)))))
       (catalog cfg en ! (k mod length (catalog cfg en)))
       (uniform 0 100 (random en k))"

text \<open>\<open>datetime.now()\<close> returned a datetime of the years 1 to 9999.\<close>

definition valid_now :: "env \<Rightarrow> bool" where
  "valid_now en = (0 \<le> now en \<and> now en < 3652059 * 86400000000)"

text \<open>Local time is at the fixed offset of \<open>c\<close> seconds from UTC, at most a day.\<close>

definition fixed_offset :: "env \<Rightarrow> int \<Rightarrow> bool" where
  "fixed_offset en c = ((\<forall>u. utcoffset en u = c) \<and> \<bar>c\<bar> \<le> 86400)"

text \<open>The instant of the naive local datetime \<open>dt\<close> in nanoseconds since
  1970-01-01T00:00:00Z, when local time is \<open>c\<close> seconds ahead of UTC.\<close>

definition posix_ns :: "int \<Rightarrow> int \<Rightarrow> int" where
  "posix_ns c dt = (dt - (62135596800 + c) * 1000000) * 1000"

section \<open>Properties\<close>

lemma header_length: "length header = 57"
  by (simp add: header_def)

subsection \<open>The catalog in closed form\<close>

lemma upto_as_upt_aux: "[1..int m] = map (\<lambda>k. 1 + int k) [0..<m]"
proof (induction m)
  case 0
  then show ?case by simp
next
  case (Suc m)
  have "[1..int (Suc m)] = [1..int m] @ [int (Suc m)]"
    using upto_rec2 [of 1 "int (Suc m)"] by simp
  then show ?case using Suc by simp
qed

lemma upto_as_upt: "[1..n] = map (\<lambda>k. 1 + int k) [0..<nat n]"
proof (cases "0 \<le> n")
  case True
  then show ?thesis using upto_as_upt_aux [of "nat n"] by simp
next
  case False
  then show ?thesis by simp
qed

lemma map_block:
  "map (\<lambda>a. f (a div m) (a mod m)) [n * m..<n * m + m] = map (f n) [0..<m]"
proof (rule nth_equalityI)
  show "length (map (\<lambda>a. f (a div m) (a mod m)) [n * m..<n * m + m]) = length (map (f n) [0..<m])"
    by simp
next
  fix i assume "i < length (map (\<lambda>a. f (a div m) (a mod m)) [n * m..<n * m + m])"
  then have i: "i < m" by simp
  then have "(n * m + i) div m = n" "(n * m + i) mod m = i" by simp_all
  then show "map (\<lambda>a. f (a div m) (a mod m)) [n * m..<n * m + m] ! i = map (f n) [0..<m] ! i"
    using i by simp
qed

lemma concat_map_upt:
  "concat (map (\<lambda>i. map (f i) [0..<m]) [0..<n]) = map (\<lambda>a. f (a div m) (a mod m)) [0..<n * m]"
proof (induction n)
  case 0
  then show ?case by simp
next
  case (Suc n)
  have "[0..<Suc n * m] = [0..<n * m] @ [n * m..<n * m + m]"
    using upt_add_eq_append [of 0 "n * m" m] by (simp add: add.commute)
  then show ?case
    using Suc map_block [of f m n] by simp
qed

lemma name_loop_eq:
  "name_loop c s p idxs rows = rows @ map (mk_row c s p) idxs"
  by (induction idxs arbitrary: rows) (simp_all add: mk_row_def)

lemma publisher_loop_eq:
  "publisher_loop cfg en c s ps st =
     (fst st @ concat (map (\<lambda>k. map (mk_row c s (uuid4 en (snd st + k))) [1..num_metrics cfg])
                         [0..<length ps]),
      snd st + length ps)"
proof (induction ps arbitrary: st)
  case Nil
  then show ?case by simp
next
  case (Cons p ps)
  show ?case
    by (simp add: Cons.IH name_loop_eq Let_def map_upt_Suc del: upt_Suc)
qed

lemma subtopic_loop_eq:
  "subtopic_loop cfg en c ss st =
     (fst st @ concat (map (\<lambda>j. pub_block cfg en c (''subtopic_'' @ str_int (ss ! j))
                                  (snd st + j * nat (num_publisher cfg)))
                         [0..<length ss]),
      snd st + length ss * nat (num_publisher cfg))"
proof (induction ss arbitrary: st)
  case Nil
  then show ?case by simp
next
  case (Cons x xs)
  show ?case
    by (simp add: Cons.IH publisher_loop_eq pub_block_def map_upt_Suc add.assoc del: upt_Suc)
qed

lemma channel_loop_step:
  "channel_loop cfg en (x # xs) st =
     channel_loop cfg en xs (fst st @ chan_block cfg en (snd st),
       snd st + Suc (nat (num_subtopic cfg) * nat (num_publisher cfg)))"
proof -
  have nth: "map (\<lambda>j. f j ([1..num_subtopic cfg] ! j)) [0..<nat (num_subtopic cfg)]
           = map (\<lambda>j. f j (1 + int j)) [0..<nat (num_subtopic cfg)]" for f :: "nat \<Rightarrow> int \<Rightarrow> 'b"
    by (rule map_cong) (simp_all add: upto_as_upt [of "num_subtopic cfg"])
  have len: "length [1..num_subtopic cfg] = nat (num_subtopic cfg)"
    by simp
  show ?thesis
    unfolding channel_loop.simps Let_def subtopic_loop_eq chan_block_def len fst_conv snd_conv
    by (subst nth) simp
qed

lemma channel_loop_eq:
  "channel_loop cfg en cs st =
     (fst st @ concat (map (\<lambda>i. chan_block cfg en
                  (snd st + i * Suc (nat (num_subtopic cfg) * nat (num_publisher cfg))))
                [0..<length cs]),
      snd st + length cs * Suc (nat (num_subtopic cfg) * nat (num_publisher cfg)))"
proof (induction cs arbitrary: st)
  case Nil
  then show ?case by simp
next
  case (Cons x xs)
  show ?case
    unfolding channel_loop_step Cons.IH
    by (simp add: map_upt_Suc algebra_simps del: upt_Suc)
qed

declare str_nat.simps [simp del]

lemma lt10_cases: "(d::nat) < 10 \<Longrightarrow> d \<in> {0, 1, 2, 3, 4, 5, 6, 7, 8, 9}"
  by auto

lemma digit_char_inj: "d < 10 \<Longrightarrow> d' < 10 \<Longrightarrow> digit_char d = digit_char d' \<Longrightarrow> d = d'"
  using lt10_cases [of d] lt10_cases [of d']
  by (auto simp: digit_char_def)

lemma str_nat_nonempty: "str_nat n \<noteq> []"
  by (subst str_nat.simps) simp

lemma str_nat_inj: "str_nat n = str_nat m \<Longrightarrow> n = m"
proof (induction n arbitrary: m rule: str_nat.induct)
  case (1 n)
  show ?case
  proof (cases "n < 10")
    case n: True
    show ?thesis
    proof (cases "m < 10")
      case True
      with n "1.prems" show ?thesis
        by (simp add: str_nat.simps [of n] str_nat.simps [of m] digit_char_inj)
    next
      case False
      with n "1.prems" str_nat_nonempty [of "m div 10"] show ?thesis
        by (simp add: str_nat.simps [of n] str_nat.simps [of m] Cons_eq_append_conv)
    qed
  next
    case n: False
    show ?thesis
    proof (cases "m < 10")
      case True
      with n "1.prems" str_nat_nonempty [of "n div 10"] show ?thesis
        by (simp add: str_nat.simps [of n] str_nat.simps [of m] append_eq_Cons_conv)
    next
      case False
      with n "1.prems" have "str_nat (n div 10) = str_nat (m div 10)"
        and "digit_char (n mod 10) = digit_char (m mod 10)"
        by (simp_all add: str_nat.simps [of n] str_nat.simps [of m])
      then have "n div 10 = m div 10" "n mod 10 = m mod 10"
        using "1.IH" [OF n] digit_char_inj [of "n mod 10" "m mod 10"] by simp_all
      then show ?thesis
        by (metis div_mult_mod_eq)
    qed
  qed
qed

lemma str_int_inj: "0 \<le> i \<Longrightarrow> 0 \<le> j \<Longrightarrow> str_int i = str_int j \<Longrightarrow> i = j"
  using str_nat_inj [of "nat i" "nat j"] by (simp add: str_int_def)

lemma concat_concat_upt:
  "concat (map (\<lambda>i. concat (map (f i) [0..<m])) [0..<n])
     = concat (map (\<lambda>a. f (a div m) (a mod m)) [0..<n * m])"
proof (induction n)
  case 0
  then show ?case by simp
next
  case (Suc n)
  have "[0..<Suc n * m] = [0..<n * m] @ [n * m..<n * m + m]"
    using upt_add_eq_append [of 0 "n * m" m] by (simp add: add.commute)
  then show ?case
    using Suc map_block [of f m n] by simp
qed

lemma pub_index:
  fixes q S P :: nat
  shows "Suc (q div P div S * Suc (S * P)) + q div P mod S * P + q mod P = Suc (q + q div P div S)"
proof -
  define a b c where "a = q div P div S" and "b = q div P mod S" and "c = q mod P"
  have "q div P = a * S + b"
    by (simp add: a_def b_def)
  then have "q = (a * S + b) * P + c"
    using div_mult_mod_eq [of q P] by (simp add: c_def)
  then have "Suc (a * Suc (S * P)) + b * P + c = Suc (q + a)"
    by (simp add: algebra_simps)
  then show ?thesis
    by (simp only: a_def b_def c_def)
qed

lemma catalog_eq: "catalog cfg en = map (entity cfg en) [0..<catalog_size cfg]"
proof -
  define S P M where "S = nat (num_subtopic cfg)" and "P = nat (num_publisher cfg)"
    and "M = nat (num_metrics cfg)"
  define K where "K = Suc (S * P)"
  have blk: "map (mk_row c s p) [1..num_metrics cfg] = map (\<lambda>m. mk_row c s p (1 + int m)) [0..<M]"
    for c s p
    by (simp add: upto_as_upt [of "num_metrics cfg"] M_def comp_def)
  have "catalog cfg en =
      concat (map (\<lambda>i. concat (map (\<lambda>j. concat (map (\<lambda>k.
          map (\<lambda>m. mk_row (uuid4 en (i * K)) (''subtopic_'' @ str_int (1 + int j))
                      (uuid4 en (Suc (i * K) + j * P + k)) (1 + int m)) [0..<M])
        [0..<P])) [0..<S])) [0..<nat (num_channels cfg)])"
    by (simp add: catalog_def channel_loop_eq chan_block_def pub_block_def blk
          S_def P_def M_def K_def add.assoc)
  also have "\<dots> = concat (map (\<lambda>r. concat (map (\<lambda>k.
          map (\<lambda>m. mk_row (uuid4 en (r div S * K)) (''subtopic_'' @ str_int (1 + int (r mod S)))
                      (uuid4 en (Suc (r div S * K) + r mod S * P + k)) (1 + int m)) [0..<M])
        [0..<P])) [0..<nat (num_channels cfg) * S])"
    by (rule concat_concat_upt)
  also have "\<dots> = concat (map (\<lambda>q.
          map (\<lambda>m. mk_row (uuid4 en (q div P div S * K))
                      (''subtopic_'' @ str_int (1 + int (q div P mod S)))
                      (uuid4 en (Suc (q div P div S * K) + q div P mod S * P + q mod P))
                      (1 + int m)) [0..<M])
        [0..<nat (num_channels cfg) * S * P])"
    by (rule concat_concat_upt)
  also have "\<dots> = map (\<lambda>a. mk_row (uuid4 en (a div M div P div S * K))
                      (''subtopic_'' @ str_int (1 + int (a div M div P mod S)))
                      (uuid4 en (Suc (a div M div P div S * K) + a div M div P mod S * P
                         + a div M mod P))
                      (1 + int (a mod M)))
        [0..<nat (num_channels cfg) * S * P * M]"
    by (rule concat_map_upt)
  also have "\<dots> = map (entity cfg en) [0..<catalog_size cfg]"
    unfolding K_def pub_index
    by (simp add: entity_def catalog_size_def Let_def S_def P_def M_def)
  finally show ?thesis .
qed

lemma length_catalog: "length (catalog cfg en) = catalog_size cfg"
  by (simp add: catalog_eq)

lemma uuid_calls_eq:
  "uuid_calls cfg en
     = nat (num_channels cfg) * Suc (nat (num_subtopic cfg) * nat (num_publisher cfg))"
  by (simp add: uuid_calls_def channel_loop_eq)

lemma fresh_inj: "fresh en n \<Longrightarrow> inj_on (uuid4 en) {0..<n}"
  by (simp add: fresh_def distinct_map)

lemma fresh_eq: "fresh en n \<Longrightarrow> i < n \<Longrightarrow> j < n \<Longrightarrow> uuid4 en i = uuid4 en j \<Longrightarrow> i = j"
  using fresh_inj [of en n] by (auto simp: inj_on_def)

lemma div_div_less:
  fixes q C S P :: nat
  assumes "q < C * S * P"
  shows "q div P div S < C"
proof -
  have "q < (C * S) * P" using assms by simp
  then have "q div P < C * S"
    by (simp add: less_mult_imp_div_less)
  then show ?thesis
    by (simp add: less_mult_imp_div_less)
qed

lemma pub_idx_less:
  fixes q C S P :: nat
  assumes "q < C * S * P"
  shows "Suc (q + q div P div S) < C * Suc (S * P)"
proof -
  define i where "i = q div P div S"
  have i: "i < C" using div_div_less [OF assms] by (simp add: i_def)
  have "q div P < Suc i * S"
    unfolding i_def
    by (metis assms dividend_less_div_times less_nat_zero_code mult.commute mult_0_right
        mult_Suc not_gr_zero add.commute)
  then have "q < Suc i * S * P"
    by (metis assms div_less_iff_less_mult less_nat_zero_code mult_0_right not_gr_zero)
  then have "Suc (q + i) \<le> Suc i * S * P + i" by simp
  also have "\<dots> < Suc i * Suc (S * P)" by (simp add: algebra_simps)
  also have "\<dots> \<le> C * Suc (S * P)"
    using i by (intro mult_le_mono1) simp
  finally show ?thesis by (simp add: i_def)
qed

lemma pub_idx_mono:
  fixes q q' S P :: nat
  assumes "Suc (q + q div P div S) = Suc (q' + q' div P div S)"
  shows "q = q'"
proof (rule ccontr)
  assume ne: "q \<noteq> q'"
  have mono: "a < b \<Longrightarrow> a + a div P div S < b + b div P div S" for a b :: nat
    by (meson add_less_le_mono div_le_mono less_or_eq_imp_le)
  from ne have "q < q' \<or> q' < q" by auto
  then show False using mono [of q q'] mono [of q' q] assms by auto
qed

lemma entity_sel:
  "channel (entity cfg en a) =
     uuid4 en (a div nat (num_metrics cfg) div nat (num_publisher cfg) div nat (num_subtopic cfg)
                * Suc (nat (num_subtopic cfg) * nat (num_publisher cfg)))"
  "publisher (entity cfg en a) =
     uuid4 en (Suc (a div nat (num_metrics cfg)
        + a div nat (num_metrics cfg) div nat (num_publisher cfg) div nat (num_subtopic cfg)))"
  "name (entity cfg en a) = ''metric_'' @ str_int (1 + int (a mod nat (num_metrics cfg)))"
  "subtopic (entity cfg en a) = ''subtopic_'' @ str_int (1 + int
     (a div nat (num_metrics cfg) div nat (num_publisher cfg) mod nat (num_subtopic cfg)))"
  by (simp_all add: entity_def mk_row_def Let_def)

lemma div_metrics_less:
  "a < catalog_size cfg \<Longrightarrow>
   a div nat (num_metrics cfg)
     < nat (num_channels cfg) * nat (num_subtopic cfg) * nat (num_publisher cfg)"
  by (simp add: catalog_size_def less_mult_imp_div_less)

lemma entity_key_inj:
  assumes fr: "fresh en (uuid_calls cfg en)"
    and a: "a < catalog_size cfg" and b: "b < catalog_size cfg"
    and eq: "key (entity cfg en a) = key (entity cfg en b)"
  shows "a = b"
proof -
  define M where "M = nat (num_metrics cfg)"
  have pub: "publisher (entity cfg en a) = publisher (entity cfg en b)"
    and nm: "name (entity cfg en a) = name (entity cfg en b)"
    using eq by (simp_all add: key_def)
  have "Suc (a div M + a div M div nat (num_publisher cfg) div nat (num_subtopic cfg))
      = Suc (b div M + b div M div nat (num_publisher cfg) div nat (num_subtopic cfg))"
    using pub unfolding entity_sel M_def
    by (rule fresh_eq [OF fr, rotated 2])
      (simp_all only: uuid_calls_eq pub_idx_less [OF div_metrics_less] a b)
  then have q: "a div M = b div M"
    by (rule pub_idx_mono)
  have "1 + int (a mod M) = 1 + int (b mod M)"
    using nm unfolding entity_sel M_def
    by (intro str_int_inj) simp_all
  then have "a mod M = b mod M" by simp
  with q show ?thesis
    by (metis div_mult_mod_eq)
qed

lemma catalog_keys_distinct:
  assumes "fresh en (uuid_calls cfg en)"
  shows "distinct (map key (catalog cfg en))"
proof -
  have "inj_on (\<lambda>a. key (entity cfg en a)) (set [0..<catalog_size cfg])"
    using entity_key_inj [OF assms] by (auto simp: inj_on_def)
  then show ?thesis
    by (simp add: catalog_eq distinct_map comp_def)
qed

subsection \<open>Size and keys of the catalog\<close>

text \<open>
  C1. When the four cardinalities are positive and every call of the identifier generator
  returned a value it had not returned before, the catalog has exactly
  \<open>C * S * P * M\<close> tuples and no two of them agree on (channel, subtopic, publisher, name).
\<close>

theorem catalog_count_and_distinct:
  assumes "0 < num_channels cfg" and "0 < num_subtopic cfg"
    and "0 < num_publisher cfg" and "0 < num_metrics cfg"
    and "fresh en (uuid_calls cfg en)"
  shows "int (length (catalog cfg en))
           = num_channels cfg * num_subtopic cfg * num_publisher cfg * num_metrics cfg
         \<and> distinct (map key (catalog cfg en))"
  using assms by (simp add: length_catalog catalog_size_def catalog_keys_distinct)

theorem catalog_count_and_distinct_witness:
  "int (length (catalog cfg0 env0)) = 4 \<and> distinct (map key (catalog cfg0 env0))"
proof -
  have "fresh env0 (uuid_calls cfg0 env0)"
    by (simp add: uuid_calls_eq fresh_def cfg0_def env0_def upt_rec)
  then show ?thesis
    using catalog_count_and_distinct [of cfg0 env0] by (simp add: cfg0_def)
qed

subsection \<open>Identifiers of the catalog\<close>















subsection \<open>Binary64 rounding\<close>

declare bitlen.simps [simp del]

lemma bitlen_bounds:
  "0 < p \<Longrightarrow> 1 \<le> bitlen p \<and> 2 ^ nat (bitlen p - 1) \<le> p \<and> p < 2 ^ nat (bitlen p)"
proof (induction p rule: bitlen.induct)
  case (1 p)
  show ?case
  proof (cases "p = 1")
    case True
    then show ?thesis
      by (simp add: bitlen.simps [of 1] bitlen.simps [of 0])
  next
    case False
    with "1.prems" have h: "0 < p div 2" by simp
    have ih: "1 \<le> bitlen (p div 2)" "2 ^ nat (bitlen (p div 2) - 1) \<le> p div 2"
      "p div 2 < 2 ^ nat (bitlen (p div 2))"
      using "1.IH" [OF _ h] "1.prems" by simp_all
    have b: "bitlen p = 1 + bitlen (p div 2)"
      using "1.prems" by (subst bitlen.simps) simp
    define k where "k = nat (bitlen (p div 2) - 1)"
    have k: "nat (bitlen (p div 2)) = Suc k" "nat (bitlen p - 1) = Suc k"
      "nat (bitlen p) = Suc (Suc k)"
      using ih(1) b by (simp_all add: k_def)
    have "(2::int) ^ Suc k \<le> p"
      using ih(2) unfolding k_def [symmetric] by simp
    moreover have "p < 2 ^ Suc (Suc k)"
      using ih(3) unfolding k(1) by simp
    moreover have "1 \<le> bitlen p" using b ih(1) by simp
    ultimately show ?thesis unfolding k by blast
  qed
qed

lemma powi_nat: "0 \<le> e \<Longrightarrow> (2::rat) powi e = 2 ^ nat e"
  by (simp add: power_int_def)

lemma powi_neg: "e \<le> 0 \<Longrightarrow> (2::rat) powi e = 1 / 2 ^ nat (- e)"
  by (cases "e = 0") (simp_all add: power_int_def field_simps)

lemma powi_pos [simp]: "0 < (2::rat) powi e"
  by (simp add: zero_less_power_int)

lemma powi_add: "(2::rat) powi (a + b) = 2 powi a * 2 powi b"
  by (simp add: power_int_add)

lemma powi_diff: "(2::rat) powi (a - b) = 2 powi a / 2 powi b"
  by (simp add: power_int_diff)

lemma powi_mono: "a \<le> b \<Longrightarrow> (2::rat) powi a \<le> 2 powi b"
  by (simp add: power_int_increasing)

lemma powi_strict_mono: "a < b \<Longrightarrow> (2::rat) powi a < 2 powi b"
  by (simp add: power_int_strict_increasing)

lemma powi_less_cancel: "(2::rat) powi a < 2 powi b \<Longrightarrow> a < b"
  by (rule ccontr) (simp add: not_less powi_mono leD)

lemma bitlen_bounds_rat:
  assumes "0 < p"
  shows "(2::rat) powi (bitlen p - 1) \<le> of_int p" and "(of_int p :: rat) < 2 powi (bitlen p)"
proof -
  have b: "1 \<le> bitlen p" "2 ^ nat (bitlen p - 1) \<le> p" "p < 2 ^ nat (bitlen p)"
    using bitlen_bounds [OF assms] by simp_all
  have "(of_int (2 ^ nat (bitlen p - 1)) :: rat) \<le> of_int p"
    using b(2) by (simp only: of_int_le_iff)
  then show "(2::rat) powi (bitlen p - 1) \<le> of_int p"
    using b(1) by (simp add: powi_nat)
  have "(of_int p :: rat) < of_int (2 ^ nat (bitlen p))"
    using b(3) by (simp only: of_int_less_iff)
  then show "(of_int p :: rat) < 2 powi (bitlen p)"
    using b(1) by (simp add: powi_nat)
qed

lemma ilog2_test:
  assumes q: "0 < q"
  shows "(if 0 \<le> c then q * 2 ^ nat c \<le> p else q \<le> p * 2 ^ nat (- c))
         \<longleftrightarrow> 2 powi c \<le> (of_int p / of_int q :: rat)"
proof (cases "0 \<le> c")
  case True
  have q': "(0::rat) < of_int q" using q by simp
  have "q * 2 ^ nat c \<le> p \<longleftrightarrow> (of_int (q * 2 ^ nat c) :: rat) \<le> of_int p"
    by (simp only: of_int_le_iff)
  also have "\<dots> \<longleftrightarrow> 2 ^ nat c \<le> (of_int p / of_int q :: rat)"
    using q' by (simp add: pos_le_divide_eq mult.commute)
  finally show ?thesis using True by (simp add: powi_nat)
next
  case False
  then have c: "c \<le> 0" by simp
  have q': "(0::rat) < of_int q" using q by simp
  have "q \<le> p * 2 ^ nat (- c) \<longleftrightarrow> (of_int q :: rat) \<le> of_int (p * 2 ^ nat (- c))"
    by (simp only: of_int_le_iff)
  also have "\<dots> \<longleftrightarrow> 1 / 2 ^ nat (- c) \<le> (of_int p / of_int q :: rat)"
    using q' by (simp add: pos_le_divide_eq pos_divide_le_eq mult.commute)
  finally show ?thesis using False by (simp add: powi_neg [OF c])
qed

text \<open>The quotient \<open>p / q\<close> lies in the binade that \<open>ilog2\<close> names.\<close>

lemma ilog2_bounds:
  assumes p: "0 < p" and q: "0 < q"
  shows "2 powi (ilog2 p q) \<le> (of_int p / of_int q :: rat)"
    and "(of_int p / of_int q :: rat) < 2 powi (ilog2 p q + 1)"
proof -
  define x :: rat where "x = of_int p / of_int q"
  define c where "c = bitlen p - bitlen q"
  have q': "(0::rat) < of_int q" using q by simp
  have x0: "0 < x" using p q by (simp add: x_def)
  have xq: "x * of_int q = of_int p" using q by (simp add: x_def)
  have "x * 2 powi (bitlen q - 1) \<le> x * of_int q"
    using bitlen_bounds_rat(1) [OF q] x0 by (intro mult_left_mono) simp_all
  also have "\<dots> < 2 powi (bitlen p)"
    unfolding xq by (rule bitlen_bounds_rat(2) [OF p])
  finally have "x < 2 powi (bitlen p) / 2 powi (bitlen q - 1)"
    by (simp add: pos_less_divide_eq)
  also have "\<dots> = 2 powi (c + 1)"
    unfolding powi_diff [symmetric] c_def by (simp add: algebra_simps)
  finally have up: "x < 2 powi (c + 1)" .
  have "2 powi (bitlen p - 1) \<le> x * of_int q"
    unfolding xq by (rule bitlen_bounds_rat(1) [OF p])
  also have "\<dots> < x * 2 powi (bitlen q)"
    using bitlen_bounds_rat(2) [OF q] x0 by (intro mult_strict_left_mono) simp_all
  finally have "2 powi (bitlen p - 1) / 2 powi (bitlen q) < x"
    by (simp add: pos_divide_less_eq)
  moreover have "2 powi (bitlen p - 1) / 2 powi (bitlen q) = (2::rat) powi (c - 1)"
    unfolding powi_diff [symmetric] c_def by (simp add: algebra_simps)
  ultimately have lo: "2 powi (c - 1) < x" by simp
  have test: "(if 0 \<le> c then q * 2 ^ nat c \<le> p else q \<le> p * 2 ^ nat (- c)) \<longleftrightarrow> 2 powi c \<le> x"
    unfolding x_def by (rule ilog2_test [OF q])
  have il: "ilog2 p q = (if 2 powi c \<le> x then c else c - 1)"
    by (simp only: ilog2_def Let_def c_def [symmetric] test)
  have "2 powi (ilog2 p q) \<le> x \<and> x < 2 powi (ilog2 p q + 1)"
  proof (cases "2 powi c \<le> x")
    case True
    then show ?thesis using up by (simp add: il)
  next
    case False
    then show ?thesis using lo by (simp add: il)
  qed
  then show "2 powi (ilog2 p q) \<le> (of_int p / of_int q :: rat)"
    and "(of_int p / of_int q :: rat) < 2 powi (ilog2 p q + 1)"
    by (simp_all add: x_def)
qed

lemma round_div_cases:
  assumes "0 < q"
  shows "round_div p q = p div q \<and> 2 * (p mod q) \<le> q
       \<or> round_div p q = p div q + 1 \<and> q \<le> 2 * (p mod q)"
  by (auto simp: round_div_def Let_def)

lemma round_div_err_int:
  assumes q: "0 < q"
  shows "2 * \<bar>round_div p q * q - p\<bar> \<le> q"
proof -
  have p: "p = p div q * q + p mod q" by simp
  have m: "0 \<le> p mod q" "p mod q < q" using q by simp_all
  from round_div_cases [OF q, of p] show ?thesis
  proof
    assume a: "round_div p q = p div q \<and> 2 * (p mod q) \<le> q"
    then have "round_div p q * q - p = - (p mod q)"
      using p by (simp add: algebra_simps)
    then show ?thesis using a m by simp
  next
    assume a: "round_div p q = p div q + 1 \<and> q \<le> 2 * (p mod q)"
    then have "round_div p q * q - p = q - p mod q"
      using p by (simp add: algebra_simps)
    then show ?thesis using a m by simp
  qed
qed

lemma round_div_err:
  assumes q: "0 < q"
  shows "\<bar>of_int (round_div p q) - (of_int p / of_int q :: rat)\<bar> \<le> 1 / 2"
proof -
  have q': "(0::rat) < of_int q" using q by simp
  have "(of_int (2 * \<bar>round_div p q * q - p\<bar>) :: rat) \<le> of_int q"
    using round_div_err_int [OF q, of p] by (simp only: of_int_le_iff)
  then have "2 * \<bar>of_int (round_div p q) * of_int q - (of_int p :: rat)\<bar> \<le> of_int q"
    by simp
  moreover have "\<bar>of_int (round_div p q) * of_int q - (of_int p :: rat)\<bar>
      = \<bar>of_int (round_div p q) - (of_int p / of_int q :: rat)\<bar> * of_int q"
  proof -
    have "\<bar>of_int (round_div p q) - (of_int p / of_int q :: rat)\<bar> * of_int q
        = \<bar>(of_int (round_div p q) - (of_int p / of_int q :: rat)) * of_int q\<bar>"
      using q' by (intro abs_mult_pos) simp
    also have "(of_int (round_div p q) - (of_int p / of_int q :: rat)) * of_int q
        = of_int (round_div p q) * of_int q - of_int p"
      using q' by (simp add: left_diff_distrib)
    finally show ?thesis by simp
  qed
  ultimately have "\<bar>of_int (round_div p q) - (of_int p / of_int q :: rat)\<bar> * of_int q
      \<le> (1 / 2) * of_int q"
    by simp
  then show ?thesis using q' by (simp only: mult_le_cancel_right_pos)
qed

lemma round_div_mult:
  assumes "0 < q"
  shows "round_div (n * q) q = n"
  using assms by (simp add: round_div_def Let_def)

lemma round_div_add:
  assumes "0 < q" and "even n"
  shows "round_div (p + n * q) q = round_div p q + n"
  using assms by (simp add: round_div_def Let_def)

lemma round_div_mono:
  assumes q: "0 < q" and le: "p \<le> p'"
  shows "round_div p q \<le> round_div p' q"
proof (cases "p div q = p' div q")
  case True
  have "p mod q = p - p div q * q" "p' mod q = p' - p' div q * q"
    by (simp_all add: minus_div_mult_eq_mod)
  then have "p mod q \<le> p' mod q" using le True by simp
  then show ?thesis
    using True by (auto simp: round_div_def Let_def)
next
  case False
  then have "p div q < p' div q"
    using zdiv_mono1 [OF le q] by simp
  then have "p div q + 1 \<le> p' div q" by simp
  moreover have "round_div p q \<le> p div q + 1" "p' div q \<le> round_div p' q"
    using round_div_cases [OF q, of p] round_div_cases [OF q, of p'] by auto
  ultimately show ?thesis by linarith
qed

lemma round_div_nonneg: "0 < q \<Longrightarrow> 0 \<le> p \<Longrightarrow> 0 \<le> round_div p q"
  using round_div_mono [of q "0 * q" p] round_div_mult [of q 0] by simp

lemma round_div_nonpos: "0 < q \<Longrightarrow> p \<le> 0 \<Longrightarrow> round_div p q \<le> 0"
  using round_div_mono [of q p "0 * q"] round_div_mult [of q 0] by simp

lemma round_div_scale:
  assumes q: "0 < q" and k: "0 < k"
  shows "round_div (p * k) (q * k) = round_div p q"
proof -
  have d: "(p * k) div (q * k) = p div q"
    using k by simp
  have m: "(p * k) mod (q * k) = (p mod q) * k"
    using k by (simp add: mult_mod_left mult.commute)
  have "2 * ((p mod q) * k) < q * k \<longleftrightarrow> 2 * (p mod q) < q"
    using k by (simp add: mult.assoc [symmetric])
  moreover have "q * k < 2 * ((p mod q) * k) \<longleftrightarrow> q < 2 * (p mod q)"
    using k by (simp add: mult.assoc [symmetric])
  ultimately show ?thesis
    by (simp add: round_div_def Let_def d m)
qed

lemma round_scaled_err:
  assumes q: "0 < q"
  shows "\<bar>of_int (round_scaled e p q) - (of_int p / of_int q :: rat) / 2 powi e\<bar> \<le> 1 / 2"
proof (cases "0 \<le> e")
  case True
  have "\<bar>of_int (round_div p (q * 2 ^ nat e)) - (of_int p / of_int (q * 2 ^ nat e) :: rat)\<bar> \<le> 1 / 2"
    using q by (intro round_div_err) simp
  then show ?thesis
    using True by (simp add: round_scaled_def powi_nat)
next
  case False
  then have e: "e \<le> 0" by simp
  have "\<bar>of_int (round_div (p * 2 ^ nat (- e)) q) - (of_int (p * 2 ^ nat (- e)) / of_int q :: rat)\<bar>
      \<le> 1 / 2"
    using q by (intro round_div_err)
  then show ?thesis
    using False by (simp add: round_scaled_def powi_neg [OF e])
qed

lemma val_fl:
  "p \<noteq> 0 \<Longrightarrow> val (fl p q) = of_int (round_scaled (fl_exp p q) p q) * 2 powi (fl_exp p q)"
  by (simp add: fl_def val_def)

lemma val_fl_zero [simp]: "val (fl 0 q) = 0"
  by (simp add: fl_def val_def)

text \<open>The result is within half a unit in the last place of \<open>p / q\<close>.\<close>

lemma fl_err:
  assumes q: "0 < q"
  shows "\<bar>val (fl p q) - (of_int p / of_int q :: rat)\<bar> \<le> 2 powi (fl_exp p q) / 2"
proof (cases "p = 0")
  case True
  then show ?thesis by simp
next
  case False
  define e where "e = fl_exp p q"
  define x :: rat where "x = of_int p / of_int q"
  define m where "m = round_scaled e p q"
  have "\<bar>of_int m - x / 2 powi e\<bar> * 2 powi e \<le> (1 / 2) * 2 powi e"
    using round_scaled_err [OF q, of e p]
    unfolding m_def x_def by (intro mult_right_mono) simp_all
  moreover have "\<bar>of_int m - x / 2 powi e\<bar> * 2 powi e = \<bar>(of_int m - x / 2 powi e) * 2 powi e\<bar>"
    by (intro abs_mult_pos) simp
  moreover have "(of_int m - x / 2 powi e) * 2 powi e = of_int m * 2 powi e - x"
    by (simp add: left_diff_distrib)
  ultimately have "\<bar>of_int m * 2 powi e - x\<bar> \<le> 2 powi e / 2" by simp
  then show ?thesis
    using False by (simp add: val_fl e_def m_def x_def)
qed

lemma fl_nonneg: "0 < q \<Longrightarrow> 0 \<le> p \<Longrightarrow> 0 \<le> fst (fl p q) \<and> 0 \<le> val (fl p q)"
  by (auto simp: fl_def val_def round_scaled_def intro!: round_div_nonneg mult_nonneg_nonneg)

lemma fl_nonpos: "0 < q \<Longrightarrow> p \<le> 0 \<Longrightarrow> fst (fl p q) \<le> 0"
  by (auto simp: fl_def round_scaled_def intro!: round_div_nonpos mult_nonpos_nonneg)

lemma fl_exp_bounds:
  assumes p: "0 < p" and q: "0 < q"
  shows "- 1074 \<le> fl_exp p q"
    and "(of_int p / of_int q :: rat) < 2 powi (fl_exp p q + 53)"
    and "- 1074 < fl_exp p q \<Longrightarrow> 2 powi (fl_exp p q + 52) \<le> (of_int p / of_int q :: rat)"
proof -
  show "- 1074 \<le> fl_exp p q" by (simp add: fl_exp_def)
  have "(of_int p / of_int q :: rat) < 2 powi (ilog2 p q + 1)"
    by (rule ilog2_bounds(2) [OF p q])
  also have "\<dots> \<le> 2 powi (fl_exp p q + 53)"
    using p by (intro powi_mono) (simp add: fl_exp_def)
  finally show "(of_int p / of_int q :: rat) < 2 powi (fl_exp p q + 53)" .
  assume "- 1074 < fl_exp p q"
  then have "fl_exp p q + 52 = ilog2 p q"
    using p by (simp add: fl_exp_def max_def split: if_splits)
  then show "2 powi (fl_exp p q + 52) \<le> (of_int p / of_int q :: rat)"
    using ilog2_bounds(1) [OF p q] by simp
qed

lemma int_le_of_half:
  fixes m n :: int
  assumes "\<bar>of_int m - (x::rat)\<bar> \<le> 1 / 2" and "x \<le> of_int n"
  shows "m \<le> n"
proof -
  have "of_int m - x \<le> 1 / 2" using assms(1) by (rule abs_le_D1)
  then have "(of_int m :: rat) < of_int (n + 1)" using assms(2) by simp
  then have "m < n + 1" by (simp only: of_int_less_iff)
  then show ?thesis by simp
qed

lemma int_ge_of_half:
  fixes m n :: int
  assumes "\<bar>of_int m - (x::rat)\<bar> \<le> 1 / 2" and "of_int n \<le> x"
  shows "n \<le> m"
proof -
  have "- (of_int m - x) \<le> 1 / 2" using assms(1) by (rule abs_le_D2)
  then have "(of_int (n - 1) :: rat) < of_int m" using assms(2) by simp
  then have "n - 1 < m" by (simp only: of_int_less_iff)
  then show ?thesis by simp
qed

lemma int_lt_of_half:
  fixes m n :: int
  assumes "\<bar>of_int m - (x::rat)\<bar> \<le> 1 / 2" and "x + 1 / 2 < of_int n"
  shows "m < n"
proof -
  have "of_int m - x \<le> 1 / 2" using assms(1) by (rule abs_le_D1)
  then have "(of_int m :: rat) < of_int n" using assms(2) by simp
  then show ?thesis by (simp only: of_int_less_iff)
qed

text \<open>Rounding does not step over a binary64 number: an upper bound of \<open>p / q\<close> that
  is itself a binary64 number bounds \<open>fl p q\<close>.\<close>

lemma fl_upper:
  assumes q: "0 < q" and M: "0 < M" "M \<le> 2 ^ 53" and E: "- 1074 \<le> E"
    and le: "(of_int p / of_int q :: rat) \<le> of_int M * 2 powi E"
  shows "val (fl p q) \<le> of_int M * 2 powi E"
proof (cases "0 < p")
  case False
  then have "fst (fl p q) \<le> 0" using fl_nonpos [OF q, of p] by simp
  then have "val (fl p q) \<le> 0"
    by (simp add: val_def mult_le_0_iff)
  also have "\<dots> \<le> of_int M * 2 powi E" using M by simp
  finally show ?thesis .
next
  case p: True
  define e where "e = fl_exp p q"
  define x :: rat where "x = of_int p / of_int q"
  define m where "m = round_scaled e p q"
  have err: "\<bar>of_int m - x / 2 powi e\<bar> \<le> 1 / 2"
    unfolding m_def x_def by (rule round_scaled_err [OF q])
  have v: "val (fl p q) = of_int m * 2 powi e"
    using p by (simp add: val_fl m_def e_def)
  show ?thesis
  proof (cases "e \<le> E")
    case True
    define N where "N = M * 2 ^ nat (E - e)"
    have "(2::rat) ^ nat (E - e) = 2 powi E / 2 powi e"
      using True powi_nat [of "E - e"] by (simp add: powi_diff)
    then have N: "(of_int N :: rat) = of_int M * 2 powi E / 2 powi e"
      by (simp add: N_def)
    have "x / 2 powi e \<le> of_int N"
      unfolding N x_def using le by (intro divide_right_mono) simp_all
    then have "m \<le> N" using err by (rule int_le_of_half [rotated])
    then have "(of_int m :: rat) * 2 powi e \<le> of_int N * 2 powi e"
      by (intro mult_right_mono) simp_all
    then show ?thesis by (simp add: v N)
  next
    case False
    then have "- 1074 < e" using E by simp
    then have lo: "2 powi (e + 52) \<le> x"
      unfolding e_def x_def by (rule fl_exp_bounds(3) [OF p q])
    have "(of_int M :: rat) \<le> of_int (2 ^ 53)" using M(2) by (simp only: of_int_le_iff)
    then have "(of_int M :: rat) * 2 powi E \<le> 2 ^ 53 * 2 powi E"
      by (intro mult_right_mono) simp_all
    also have "\<dots> = 2 powi (53 + E)"
      by (simp add: powi_add)
    also have "\<dots> \<le> 2 powi (e + 52)"
      using False by (intro powi_mono) simp
    finally have "of_int M * 2 powi E \<le> (2::rat) powi (e + 52)" .
    with lo le have x: "x = 2 powi (e + 52)" and y: "of_int M * 2 powi E = x"
      by (simp_all add: x_def)
    have "x / 2 powi e = of_int (2 ^ 52)"
      by (simp add: x powi_add)
    with err have "m \<le> 2 ^ 52"
      by (intro int_le_of_half [of m "x / 2 powi e"]) simp_all
    then have "(of_int m :: rat) \<le> of_int (2 ^ 52)" by (simp only: of_int_le_iff)
    then have "(of_int m :: rat) * 2 powi e \<le> 2 ^ 52 * 2 powi e"
      by (intro mult_right_mono) simp_all
    also have "\<dots> = x" by (simp add: x powi_add)
    finally show ?thesis by (simp add: v y)
  qed
qed

lemma int_of_double_nonpos: "fst d \<le> 0 \<Longrightarrow> int_of_double d \<le> 0"
  by (auto simp: int_of_double_def Let_def mult_le_0_iff div_int_pos_iff)

lemma int_of_double_div:
  assumes "snd d \<le> 0" and "0 \<le> fst d"
  shows "int_of_double d = fst d div 2 ^ nat (- snd d)"
  using assms by (cases "snd d = 0") (simp_all add: int_of_double_def Let_def)

text \<open>\<open>int(a / b)\<close> is the floor of the exact quotient when both operands are positive
  and below \<open>2 ^ 53\<close>.\<close>

lemma fl_floor:
  assumes a: "0 < a" "a < 2 ^ 53" and b: "0 < b" "b < 2 ^ 53"
  shows "int_of_double (fl a b) = a div b" and "\<not> is_inf (fl a b)"
proof -
  define x :: rat where "x = of_int a / of_int b"
  define c where "c = ilog2 a b"
  define e where "e = fl_exp a b"
  define m where "m = round_scaled e a b"
  define n where "n = a div b"
  have b': "(0::rat) < of_int b" and a': "(0::rat) < of_int a" using a b by simp_all
  have xb: "x * of_int b = of_int a" using b by (simp add: x_def)
  have clo: "2 powi c \<le> x" and chi: "x < 2 powi (c + 1)"
    unfolding c_def x_def by (rule ilog2_bounds [OF a(1) b(1)])+
  have "(of_int a :: rat) < of_int (2 ^ 53)" using a(2) by (simp only: of_int_less_iff)
  then have a53: "(of_int a :: rat) < 2 powi 53" by simp
  have "(of_int b :: rat) < of_int (2 ^ 53)" using b(2) by (simp only: of_int_less_iff)
  then have b53: "(of_int b :: rat) < 2 powi 53" by simp
  have b1: "(1::rat) \<le> of_int b" using b(1) by simp
  have a1: "(1::rat) \<le> of_int a" using a(1) by simp
  have x0: "0 < x" using a' b' by (simp add: x_def)
  have "x * 1 \<le> x * of_int b" using b1 x0 by (intro mult_left_mono) simp_all
  then have "x \<le> x * of_int b" by simp
  then have "x < 2 powi 53" using a53 xb by simp
  then have "(2::rat) powi c < 2 powi 53" using clo by simp
  then have c52: "c \<le> 52" using powi_less_cancel [of c 53] by simp
  have "1 \<le> x * of_int b" using a1 xb by simp
  also have "\<dots> < x * 2 powi 53"
    using b53 x0 by (intro mult_strict_left_mono) simp_all
  finally have "1 / 2 powi 53 < x" by (simp add: pos_divide_less_eq)
  then have "(2::rat) powi (- 53) < 2 powi (c + 1)"
    using chi by (simp add: power_int_minus field_simps)
  then have c53: "- 53 \<le> c" using powi_less_cancel [of "- 53" "c + 1"] by simp
  have e: "e = c - 52"
    using c53 a(1) by (simp add: e_def fl_exp_def c_def)
  define k where "k = nat (- e)"
  have e0: "e \<le> 0" using e c52 by simp
  have ke: "nat (- e) = k" by (simp add: k_def)
  have pk: "(2::rat) powi e = 1 / 2 ^ k"
    using powi_neg [OF e0] by (simp only: ke)
  have err: "\<bar>of_int m - x * 2 ^ k\<bar> \<le> 1 / 2"
    using round_scaled_err [OF b(1), of e a] by (simp add: m_def x_def pk)
  have n_le: "of_int n \<le> x"
  proof -
    have "n * b \<le> a"
      unfolding n_def using div_mult_mod_eq [of a b] pos_mod_sign [OF b(1), of a] by linarith
    then have "(of_int (n * b) :: rat) \<le> of_int a" by (simp only: of_int_le_iff)
    then show ?thesis using b' by (simp add: x_def pos_le_divide_eq)
  qed
  have x_le: "x \<le> of_int (n + 1) - 1 / of_int b"
  proof -
    have "a mod b < b" using b(1) by simp
    then have "a + 1 \<le> a div b * b + b"
      using div_mult_mod_eq [of a b] by linarith
    then have "a + 1 \<le> (n + 1) * b"
      by (simp add: n_def algebra_simps)
    then have "(of_int (a + 1) :: rat) \<le> of_int ((n + 1) * b)" by (simp only: of_int_le_iff)
    then have "(of_int a :: rat) \<le> (of_int (n + 1) - 1 / of_int b) * of_int b"
      using b' by (simp add: left_diff_distrib)
    then show ?thesis using b' by (simp add: x_def pos_divide_le_eq)
  qed
  have "of_int b * 2 powi c \<le> of_int b * x"
    using clo b' by (intro mult_left_mono) simp_all
  also have "\<dots> < 2 powi 53" using a53 xb by (simp add: mult.commute)
  finally have "(of_int b :: rat) < 2 powi 53 / 2 powi c"
    by (simp add: pos_less_divide_eq)
  also have "\<dots> = 2 powi (53 - c)" by (simp add: powi_diff)
  also have "\<dots> = 2 ^ Suc k"
  proof -
    have "nat (53 - c) = Suc k" using c52 by (simp add: k_def e)
    then show ?thesis using c52 powi_nat [of "53 - c"] by simp
  qed
  finally have bk: "(of_int b :: rat) < 2 * 2 ^ k" by simp
  have lower: "n * 2 ^ k \<le> m"
  proof (rule int_ge_of_half [OF err])
    show "of_int (n * 2 ^ k) \<le> x * 2 ^ k"
      using n_le by (simp add: mult_right_mono)
  qed
  have upper: "m < (n + 1) * 2 ^ k"
  proof (rule int_lt_of_half [OF err])
    have "1 / 2 < 2 ^ k / (of_int b :: rat)"
      using bk b' by (simp add: pos_less_divide_eq)
    moreover have "x * 2 ^ k \<le> (of_int (n + 1) - 1 / of_int b) * 2 ^ k"
      using x_le by (intro mult_right_mono) simp_all
    ultimately show "x * 2 ^ k + 1 / 2 < of_int ((n + 1) * 2 ^ k)"
      by (simp add: left_diff_distrib)
  qed
  have n0: "0 \<le> n" using a b by (simp add: n_def pos_imp_zdiv_nonneg_iff)
  have m0: "0 \<le> m"
    using lower n0 by (meson mult_nonneg_nonneg order_trans zero_le_numeral zero_le_power)
  have fl: "fl a b = (m, e)" using a(1) by (simp add: fl_def m_def e_def)
  have "m div 2 ^ k = n"
  proof (rule int_div_pos_eq [of m "2 ^ k" n "m - n * 2 ^ k"])
    show "m = 2 ^ k * n + (m - n * 2 ^ k)" by simp
    show "0 \<le> m - n * 2 ^ k" using lower by simp
    show "m - n * 2 ^ k < 2 ^ k" using upper by (simp add: algebra_simps)
  qed
  then show "int_of_double (fl a b) = a div b"
    using int_of_double_div [of "(m, e)"] m0 e0 by (simp add: fl ke n_def)
  have "(of_int m :: rat) < of_int ((n + 1) * 2 ^ k)" using upper by (simp only: of_int_less_iff)
  then have "(of_int m :: rat) / 2 ^ k < of_int (n + 1)"
    by (simp add: pos_divide_less_eq)
  moreover have "n \<le> a"
  proof -
    have "n * 1 \<le> n * b" using n0 b(1) by (intro mult_left_mono) simp_all
    moreover have "n * b \<le> a"
      unfolding n_def using div_mult_mod_eq [of a b] pos_mod_sign [OF b(1), of a] by linarith
    ultimately show ?thesis by simp
  qed
  then have "n + 1 \<le> 2 ^ 53" using a(2) by simp
  then have "(of_int (n + 1) :: rat) \<le> of_int (2 ^ 53)" by (simp only: of_int_le_iff)
  moreover have "(2::rat) ^ 53 < 2 ^ 1024" by simp
  ultimately have "(of_int m :: rat) / 2 ^ k < 2 ^ 1024" by simp
  moreover have "\<bar>val (fl a b)\<bar> = of_int m / 2 ^ k"
    using m0 by (simp add: fl val_def pk)
  ultimately show "\<not> is_inf (fl a b)"
    by (simp add: is_inf_def)
qed

subsection \<open>The emitter in closed form\<close>

lemma upto_from_0_aux: "[0..int m - 1] = map int [0..<m]"
proof (induction m)
  case 0
  then show ?case by simp
next
  case (Suc m)
  have "[0..int (Suc m) - 1] = [0..int m - 1] @ [int m]"
    using upto_rec2 [of 0 "int m"] by simp
  then show ?case using Suc by simp
qed

lemma upto_from_0: "[0..n - 1] = map int [0..<nat n]"
proof (cases "0 \<le> n")
  case True
  then show ?thesis using upto_from_0_aux [of "nat n"] by simp
next
  case False
  then show ?thesis by simp
qed

lemma row_loop_eq:
  "row_loop en ts rs st = (fst st @ lines_at en rs ts (snd st), snd st + length rs)"
proof (induction rs arbitrary: st)
  case Nil
  then show ?case by (simp add: lines_at_def)
next
  case (Cons r rs)
  show ?case
    by (simp add: Cons.IH Let_def lines_at_def map_upt_Suc del: upt_Suc)
qed

lemma interval_loop_step:
  "interval_loop en rows s iv (i # idxs) st =
     (case grid_ns en s iv i of Inl err \<Rightarrow> Inl (err, fst st)
      | Inr ts \<Rightarrow> interval_loop en rows s iv idxs (row_loop en ts rows st))"
  by (simp add: grid_ns_def split: sum.splits)

text \<open>The outer loop writes the lines of the timestamps it reaches; it ends with the first
  exception of lines 62 and 63.\<close>

lemma interval_loop_eq:
  "interval_loop en rows s iv idxs st =
     (let m = length (takeWhile (\<lambda>i. \<not> isl (grid_ns en s iv i)) idxs);
          file = fst st @ concat (map (\<lambda>a. lines_at en rows (projr (grid_ns en s iv (idxs ! a)))
                                              (snd st + a * length rows)) [0..<m])
      in if m = length idxs then Inr (file, snd st + m * length rows)
         else Inl (projl (grid_ns en s iv (idxs ! m)), file))"
proof (induction idxs arbitrary: st)
  case Nil
  then show ?case by simp
next
  case (Cons i idxs)
  show ?case
  proof (cases "grid_ns en s iv i")
    case (Inl err)
    then show ?thesis
      unfolding interval_loop_step by simp
  next
    case (Inr ts)
    then show ?thesis
      unfolding interval_loop_step Cons.IH
      by (simp add: Let_def row_loop_eq map_upt_Suc algebra_simps del: upt_Suc)
  qed
qed

lemma reached_le: "reached en s iv n \<le> nat n"
proof -
  have "reached en s iv n \<le> length [0..n - 1]"
    unfolding reached_def by (rule length_takeWhile_le)
  then show ?thesis by simp
qed

lemma takeWhile_nth_ok:
  assumes "a < length (takeWhile P xs)"
  shows "P (xs ! a)"
proof -
  have "takeWhile P xs ! a \<in> set (takeWhile P xs)"
    using assms by (rule nth_mem)
  then have "P (takeWhile P xs ! a)"
    by (rule set_takeWhileD [THEN conjunct2])
  then show ?thesis
    using takeWhile_nth [OF assms] by simp
qed

lemma reached_ok:
  assumes "a < reached en s iv n"
  shows "\<not> isl (grid_ns en s iv (int a))"
proof -
  have a: "a < length (takeWhile (\<lambda>i. \<not> isl (grid_ns en s iv i)) (map int [0..<nat n]))"
    using assms by (simp add: reached_def upto_from_0)
  have an: "a < nat n" using assms reached_le [of en s iv n] by simp
  have "\<not> isl (grid_ns en s iv (map int [0..<nat n] ! a))"
    using a by (rule takeWhile_nth_ok)
  then show ?thesis using an by simp
qed

lemma reached_stop:
  assumes "reached en s iv n < nat n"
  shows "isl (grid_ns en s iv (int (reached en s iv n)))"
proof -
  define xs where "xs = map int [0..<nat n]"
  define P where "P = (\<lambda>i. \<not> isl (grid_ns en s iv i))"
  have r: "reached en s iv n = length (takeWhile P xs)"
    by (simp add: reached_def upto_from_0 xs_def P_def)
  have lt: "length (takeWhile P xs) < length xs"
    using assms unfolding r by (simp add: xs_def)
  then have "\<not> P (xs ! length (takeWhile P xs))"
    by (rule nth_length_takeWhile)
  moreover have "xs ! length (takeWhile P xs) = int (length (takeWhile P xs))"
    using lt by (simp add: xs_def)
  ultimately show ?thesis
    unfolding r by (simp add: P_def)
qed

lemma reached_all:
  assumes "\<And>i. 0 \<le> i \<Longrightarrow> i < n \<Longrightarrow> \<not> isl (grid_ns en s iv i)"
  shows "reached en s iv n = nat n"
proof (rule ccontr)
  assume "reached en s iv n \<noteq> nat n"
  then have lt: "reached en s iv n < nat n"
    using reached_le [of en s iv n] by simp
  then have "isl (grid_ns en s iv (int (reached en s iv n)))"
    by (rule reached_stop)
  moreover have "\<not> isl (grid_ns en s iv (int (reached en s iv n)))"
    using lt by (intro assms) simp_all
  ultimately show False by simp
qed

lemma reached_first:
  assumes "isl (grid_ns en s iv 0)" and "0 < n"
  shows "reached en s iv n = 0"
proof -
  have "[0..n - 1] = 0 # [1..n - 1]"
    using assms(2) upto_rec1 [of 0 "n - 1"] by simp
  then show ?thesis
    using assms(1) by (simp add: reached_def)
qed

text \<open>The file of a run that got past the time grid: the header, then one line for every
  pair of a timestamp reached and a tuple, timestamp by timestamp. The run ends with the
  first exception of lines 62 and 63, if there is one.\<close>

lemma main_eq:
  assumes tg: "time_grid cfg en = Inr (s, iv, n)"
  shows "main cfg en =
     (let m = reached en s iv n;
          f = header # map (data_line cfg en s iv) [0..<m * length (catalog cfg en)]
      in if m = nat n then Done f else Raised (projl (grid_ns en s iv (int m))) (Some f))"
proof -
  define rows where "rows = catalog cfg en"
  define N where "N = length rows"
  define m where "m = reached en s iv n"
  define g where "g a j = csv_line (projr (grid_ns en s iv (int a))) (rows ! j)
                            (uniform 0 100 (random en (a * N + j)))" for a j
  have mn: "m \<le> nat n" unfolding m_def by (rule reached_le)
  have len: "length [0..n - 1] = nat n" by simp
  have m': "length (takeWhile (\<lambda>i. \<not> isl (grid_ns en s iv i)) [0..n - 1]) = m"
    by (simp add: m_def reached_def)
  have blocks: "map (\<lambda>a. lines_at en rows (projr (grid_ns en s iv ([0..n - 1] ! a)))
                             (snd ([header], 0::nat) + a * length rows)) [0..<m]
              = map (\<lambda>a. map (g a) [0..<N]) [0..<m]"
    using mn by (intro map_cong) (simp_all add: upto_from_0 [of n] lines_at_def g_def N_def)
  have cc: "concat (map (\<lambda>a. map (g a) [0..<N]) [0..<m])
      = map (\<lambda>k. g (k div N) (k mod N)) [0..<m * N]"
    by (rule concat_map_upt)
  have dl: "map (\<lambda>k. g (k div N) (k mod N)) [0..<m * N]
      = map (data_line cfg en s iv) [0..<m * N]"
    by (simp add: g_def data_line_def rows_def N_def)
  have il: "interval_loop en rows s iv [0..n - 1] ([header], 0) =
      (if m = nat n then Inr (header # map (data_line cfg en s iv) [0..<m * N], m * N)
       else Inl (projl (grid_ns en s iv ([0..n - 1] ! m)),
                 header # map (data_line cfg en s iv) [0..<m * N]))"
    unfolding interval_loop_eq Let_def m' len blocks cc dl by (simp add: N_def)
  have nth: "[0..n - 1] ! m = int m" if "m \<noteq> nat n"
    using that mn by (simp add: upto_from_0 [of n])
  show ?thesis
    using tg nth
    by (simp add: main_def Let_def il rows_def [symmetric] m_def [symmetric] N_def [symmetric])
qed

subsection \<open>The time grid\<close>

lemma timedelta_new_if:
  "timedelta_new us =
     (if - 999999999 * 86400000000 \<le> us \<and> us < 1000000000 * 86400000000
      then Inr us else Inl OverflowError)"
  unfolding timedelta_new_def by auto

lemma datetime_new_if:
  "datetime_new us =
     (if 0 \<le> us \<and> us < 3652059 * 86400000000 then Inr us else Inl OverflowError)"
  unfolding datetime_new_def by auto

text \<open>When lines 46 to 48 raise nothing, and what they give then.\<close>

lemma time_grid_Inr:
  "time_grid cfg en = Inr (s, iv, n) \<longleftrightarrow>
     - 999999999 \<le> last_num_days cfg \<and> last_num_days cfg \<le> 999999999
     \<and> s = now en - last_num_days cfg * 86400000000
     \<and> 0 \<le> s \<and> s < 3652059 * 86400000000
     \<and> iv = data_interval_minutes cfg * 60000000
     \<and> - 999999999 * 86400000000 \<le> iv \<and> iv < 1000000000 * 86400000000
     \<and> data_interval_minutes cfg \<noteq> 0
     \<and> \<not> is_inf (if 0 < data_interval_minutes cfg
                    then fl (last_num_days cfg * 24 * 60) (data_interval_minutes cfg)
                    else fl (- (last_num_days cfg * 24 * 60)) (- data_interval_minutes cfg))
     \<and> n = int_of_double (if 0 < data_interval_minutes cfg
                    then fl (last_num_days cfg * 24 * 60) (data_interval_minutes cfg)
                    else fl (- (last_num_days cfg * 24 * 60)) (- data_interval_minutes cfg))"
  unfolding time_grid_def timedelta_days_def timedelta_minutes_def datetime_sub_def
    timedelta_new_if datetime_new_if int_truediv_def Let_def
  by (auto split: if_splits)

lemma num_intervals_pos:
  assumes tg: "time_grid cfg en = Inr (s, iv, n)"
    and W: "0 < last_num_days cfg" and I: "0 < data_interval_minutes cfg"
  shows "n = (last_num_days cfg * 24 * 60) div data_interval_minutes cfg"
proof -
  have "last_num_days cfg \<le> 999999999" "data_interval_minutes cfg * 60000000 < 1000000000 * 86400000000"
    using tg unfolding time_grid_Inr by simp_all
  then have "last_num_days cfg * 24 * 60 < 2 ^ 53" "data_interval_minutes cfg < 2 ^ 53"
    by simp_all
  moreover have "0 < last_num_days cfg * 24 * 60" using W by simp
  ultimately have "int_of_double (fl (last_num_days cfg * 24 * 60) (data_interval_minutes cfg))
      = (last_num_days cfg * 24 * 60) div data_interval_minutes cfg"
    using I by (intro fl_floor(1))
  then show ?thesis using tg I unfolding time_grid_Inr by simp
qed

lemma num_intervals_neg:
  assumes tg: "time_grid cfg en = Inr (s, iv, n)"
    and W: "last_num_days cfg < 0" and I: "data_interval_minutes cfg < 0"
  shows "n = (- (last_num_days cfg * 24 * 60)) div (- data_interval_minutes cfg)"
proof -
  have "- 999999999 \<le> last_num_days cfg"
    "- 999999999 * 86400000000 \<le> data_interval_minutes cfg * 60000000"
    using tg unfolding time_grid_Inr by simp_all
  then have "- (last_num_days cfg * 24 * 60) < 2 ^ 53" "- data_interval_minutes cfg < 2 ^ 53"
    by simp_all
  moreover have "0 < - (last_num_days cfg * 24 * 60)" using W by simp
  moreover have "0 < - data_interval_minutes cfg" using I by simp
  ultimately have "int_of_double (fl (- (last_num_days cfg * 24 * 60)) (- data_interval_minutes cfg))
      = (- (last_num_days cfg * 24 * 60)) div (- data_interval_minutes cfg)"
    by (intro fl_floor(1))
  then show ?thesis using tg I unfolding time_grid_Inr by simp
qed

lemma num_intervals_nonpos:
  assumes tg: "time_grid cfg en = Inr (s, iv, n)"
    and "\<not> (0 < last_num_days cfg \<and> 0 < data_interval_minutes cfg)"
    and "\<not> (last_num_days cfg < 0 \<and> data_interval_minutes cfg < 0)"
  shows "n \<le> 0"
proof (cases "0 < data_interval_minutes cfg")
  case True
  then have "last_num_days cfg * 24 * 60 \<le> 0" using assms(2) by simp
  then have "fst (fl (last_num_days cfg * 24 * 60) (data_interval_minutes cfg)) \<le> 0"
    using True by (intro fl_nonpos)
  then show ?thesis
    using tg True unfolding time_grid_Inr by (simp add: int_of_double_nonpos)
next
  case False
  then have I: "0 < - data_interval_minutes cfg"
    using tg unfolding time_grid_Inr by simp
  have "- (last_num_days cfg * 24 * 60) \<le> 0" using assms(3) I by simp
  then have "fst (fl (- (last_num_days cfg * 24 * 60)) (- data_interval_minutes cfg)) \<le> 0"
    using I by (intro fl_nonpos)
  then show ?thesis
    using tg False unfolding time_grid_Inr by (simp add: int_of_double_nonpos)
qed

lemma div_mult_le_pos:
  fixes a b i :: int
  assumes "0 < b" and "0 \<le> i" and "i < a div b"
  shows "i * b \<le> a"
proof -
  have "i * b \<le> (a div b) * b" using assms by (intro mult_right_mono) simp_all
  also have "\<dots> \<le> a"
    using div_mult_mod_eq [of a b] pos_mod_sign [OF assms(1), of a] by linarith
  finally show ?thesis .
qed

text \<open>Inside the loop line 62 raises nothing: every grid point lies between the start of
  the window and the generation instant.\<close>

lemma grid_in_range:
  assumes tg: "time_grid cfg en = Inr (s, iv, n)" and vn: "valid_now en"
    and i: "0 \<le> i" "i < n"
  shows "timedelta_mul i iv = Inr (i * iv)" and "datetime_add s (i * iv) = Inr (s + i * iv)"
    and "0 \<le> s + i * iv" and "s + i * iv < 3652059 * 86400000000"
proof -
  define W I where "W = last_num_days cfg" and "I = data_interval_minutes cfg"
  have r: "- 999999999 \<le> W" "W \<le> 999999999" "s = now en - W * 86400000000"
    "0 \<le> s" "s < 3652059 * 86400000000" "iv = I * 60000000"
    using tg unfolding time_grid_Inr W_def I_def by simp_all
  have nw: "0 \<le> now en" "now en < 3652059 * 86400000000"
    using vn by (simp_all add: valid_now_def)
  have n: "0 < n" using i by simp
  have iv: "i * iv = i * I * 60000000" by (simp add: r(6))
  have same: "(0 < W \<and> 0 < I) \<or> (W < 0 \<and> I < 0)"
    using num_intervals_nonpos [OF tg] n unfolding W_def I_def by fastforce
  have b: "(0 \<le> i * iv \<and> i * iv \<le> W * 86400000000)
         \<or> (W * 86400000000 \<le> i * iv \<and> i * iv \<le> 0)"
    using same
  proof
    assume p: "0 < W \<and> 0 < I"
    then have "n = (W * 24 * 60) div I"
      using num_intervals_pos [OF tg] unfolding W_def I_def by simp
    then have "i * I \<le> W * 24 * 60"
      using div_mult_le_pos [of I i "W * 24 * 60"] p i by simp
    moreover have "0 \<le> i * I" using p i by simp
    ultimately have "0 \<le> i * I * 60000000 \<and> i * I * 60000000 \<le> W * 86400000000"
      by linarith
    then show ?thesis unfolding iv by (rule disjI1)
  next
    assume p: "W < 0 \<and> I < 0"
    then have "n = (- (W * 24 * 60)) div (- I)"
      using num_intervals_neg [OF tg] unfolding W_def I_def by simp
    then have "i * (- I) \<le> - (W * 24 * 60)"
      using div_mult_le_pos [of "- I" i "- (W * 24 * 60)"] p i by simp
    then have "W * 24 * 60 \<le> i * I" by simp
    moreover have "i * I \<le> 0" using p i by (simp add: mult_le_0_iff)
    ultimately have "W * 86400000000 \<le> i * I * 60000000 \<and> i * I * 60000000 \<le> 0"
      by linarith
    then show ?thesis unfolding iv by (rule disjI2)
  qed
  show "timedelta_mul i iv = Inr (i * iv)"
    using b r(1,2) by (auto simp: timedelta_mul_def timedelta_new_if)
  show "datetime_add s (i * iv) = Inr (s + i * iv)"
    using b r(3,4,5) nw by (auto simp: datetime_add_def datetime_new_if)
  show "0 \<le> s + i * iv" "s + i * iv < 3652059 * 86400000000"
    using b r(3,4,5) nw by auto
qed

lemma grid_ns_eq:
  assumes "time_grid cfg en = Inr (s, iv, n)" and "valid_now en" and "0 \<le> i" and "i < n"
  shows "grid_ns en s iv i = timestamp_ns en (s + i * iv)"
  unfolding grid_ns_def using grid_in_range(1,2) [OF assms] by simp

text \<open>Wherever lines 62 and 63 give a timestamp, it is that of the datetime
  \<open>start_time + i * interval\<close>.\<close>

lemma grid_ns_Inr:
  assumes "grid_ns en s iv i = Inr ts"
  shows "timestamp_ns en (s + i * iv) = Inr ts"
  using assms
  unfolding grid_ns_def timedelta_mul_def timedelta_new_def datetime_add_def datetime_new_def
  by (auto split: if_splits)

text \<open>A positive window that starts in the year 1 or later, sampled at a positive interval
  below the largest \<open>timedelta\<close>, gets past the time grid.\<close>

lemma time_grid_pos:
  assumes W: "0 < last_num_days cfg" and I: "0 < data_interval_minutes cfg"
    and vn: "valid_now en"
  shows "time_grid cfg en =
     (if last_num_days cfg * 86400000000 \<le> now en \<and> data_interval_minutes cfg < 1440000000000
      then Inr (now en - last_num_days cfg * 86400000000, data_interval_minutes cfg * 60000000,
                (last_num_days cfg * 24 * 60) div data_interval_minutes cfg)
      else Inl OverflowError)"
proof (cases "last_num_days cfg * 86400000000 \<le> now en \<and> data_interval_minutes cfg < 1440000000000")
  case True
  have nw: "0 \<le> now en" "now en < 3652059 * 86400000000"
    using vn by (simp_all add: valid_now_def)
  have w: "last_num_days cfg \<le> 999999999" using True nw W by simp
  then have a: "0 < last_num_days cfg * 24 * 60" "last_num_days cfg * 24 * 60 < 2 ^ 53"
    using W by simp_all
  have b: "data_interval_minutes cfg < 2 ^ 53" using True by simp
  have f: "int_of_double (fl (last_num_days cfg * 24 * 60) (data_interval_minutes cfg))
         = (last_num_days cfg * 24 * 60) div data_interval_minutes cfg"
    "\<not> is_inf (fl (last_num_days cfg * 24 * 60) (data_interval_minutes cfg))"
    using fl_floor [OF a I b] by simp_all
  have "time_grid cfg en
      = Inr (now en - last_num_days cfg * 86400000000, data_interval_minutes cfg * 60000000,
             (last_num_days cfg * 24 * 60) div data_interval_minutes cfg)"
    unfolding time_grid_Inr using True nw W I w f by simp
  then show ?thesis using True by simp
next
  case False
  then show ?thesis
    using W I vn
    unfolding time_grid_def timedelta_days_def timedelta_minutes_def datetime_sub_def
      timedelta_new_if datetime_new_if valid_now_def
    by (auto split: sum.splits)
qed

lemma valid_now_env0: "valid_now env0" and valid_now_env1: "valid_now env1"
  by (simp_all add: valid_now_def env0_def env1_def)

lemma time_grid_cfg0:
  "time_grid cfg0 env0 = Inr (63929304000000001, 43200000000, 2)"
  "time_grid cfg0 env1 = Inr (63929347200500000, 43200000000, 2)"
  "time_grid cfg1 env0 = Inr (63929304000000001, 43200000000, 2)"
  using time_grid_pos [OF _ _ valid_now_env0, of cfg0]
    time_grid_pos [OF _ _ valid_now_env1, of cfg0]
    time_grid_pos [OF _ _ valid_now_env0, of cfg1]
  by (simp_all add: cfg0_def cfg1_def env0_def env1_def)

lemma length_catalog_cfg0: "length (catalog cfg0 en) = 4" "length (catalog cfg1 en) = 0"
  by (simp_all add: length_catalog catalog_size_def cfg0_def cfg1_def)

text \<open>
  C3. For a positive window of \<open>W\<close> days and a positive interval of \<open>I\<close> minutes, a
  run that gets past lines 46 to 48 has \<open>\<lfloor>W * 1440 / I\<rfloor>\<close> timestamps: the float
  division of line 48 and its truncation give the floor of the exact quotient. (The run
  gets there unless the window starts before the year 1 or the interval is beyond the
  largest \<open>timedelta\<close>; then \<open>OverflowError\<close> is raised.)
\<close>

theorem time_grid_count:
  assumes "0 < last_num_days cfg" and "0 < data_interval_minutes cfg" and "valid_now en"
  shows "time_grid cfg en =
     (if last_num_days cfg * 86400000000 \<le> now en \<and> data_interval_minutes cfg < 1440000000000
      then Inr (now en - last_num_days cfg * 86400000000, data_interval_minutes cfg * 60000000,
                \<lfloor>(of_int (last_num_days cfg * 1440) :: rat)
                   / of_int (data_interval_minutes cfg)\<rfloor>)
      else Inl OverflowError)"
proof -
  have "last_num_days cfg * 1440 = last_num_days cfg * 24 * 60" by simp
  then have "\<lfloor>(of_int (last_num_days cfg * 1440) :: rat) / of_int (data_interval_minutes cfg)\<rfloor>
      = (last_num_days cfg * 24 * 60) div data_interval_minutes cfg"
    by (simp only: floor_divide_of_int_eq)
  then show ?thesis
    using time_grid_pos [OF assms] by (simp only:)
qed

theorem time_grid_count_witness:
  "time_grid cfg0 env0 = Inr (63929304000000001, 43200000000, 2)"
proof -
  have "\<lfloor>(of_int (1 * 1440) :: rat) / of_int 720\<rfloor> = 2"
    by (simp only: floor_divide_of_int_eq)
  then show ?thesis
    using time_grid_count [of cfg0 env0] valid_now_env0
    by (simp add: cfg0_def env0_def)
qed

subsection \<open>The sampled value\<close>

lemmas fl_eval = fl_def fl_exp_def ilog2_def round_scaled_def round_div_def fl_dyadic_def
  double_add_def double_mul_def double_of_int_def int_of_double_def Let_def bitlen.simps

lemma fl_dyadic_eq: "fl_dyadic s e = fl (s * 2 ^ nat e) (2 ^ nat (- e))"
  by (simp add: fl_dyadic_def)

lemma dyadic_ratio:
  "(of_int (s * 2 ^ nat e) / of_int (2 ^ nat (- e)) :: rat) = of_int s * 2 powi e"
proof (cases "0 \<le> e")
  case True
  then show ?thesis by (simp add: powi_nat)
next
  case False
  then have "e \<le> 0" by simp
  then show ?thesis using False by (simp add: powi_neg)
qed

lemma snd_fl: "p \<noteq> 0 \<Longrightarrow> snd (fl p q) = fl_exp p q"
  by (simp add: fl_def)

lemma fl_exp_le:
  assumes p: "0 < p" and q: "0 < q"
    and x: "(of_int p / of_int q :: rat) < 2 powi c" and c: "- 1021 \<le> c"
  shows "fl_exp p q \<le> c - 53"
proof -
  have "(2::rat) powi (ilog2 p q) < 2 powi c"
    using ilog2_bounds(1) [OF p q] x by simp
  then have "ilog2 p q < c" by (rule powi_less_cancel)
  then show ?thesis using p c by (simp add: fl_exp_def)
qed

lemma fl_mant_le:
  assumes p: "0 < p" and q: "0 < q"
  shows "fst (fl p q) \<le> 2 ^ 53"
proof -
  define e where "e = fl_exp p q"
  have "(of_int p / of_int q :: rat) < 2 powi (e + 53)"
    unfolding e_def by (rule fl_exp_bounds(2) [OF p q])
  then have "(of_int p / of_int q :: rat) / 2 powi e < 2 powi (e + 53) / 2 powi e"
    by (intro divide_strict_right_mono) simp_all
  also have "\<dots> = of_int (2 ^ 53)" by (simp add: powi_add)
  finally have "(of_int p / of_int q :: rat) / 2 powi e \<le> of_int (2 ^ 53)" by simp
  then have "round_scaled e p q \<le> 2 ^ 53"
    using round_scaled_err [OF q, of e p] by (rule int_le_of_half [rotated])
  then show ?thesis using p by (simp add: fl_def e_def)
qed

text \<open>A float just below 100: the product \<open>100 * r\<close> for a float \<open>r < 1\<close> rounds
  below 100.\<close>

lemma fl_below_100:
  assumes p: "0 \<le> p" and q: "0 < q"
    and xle: "(of_int p / of_int q :: rat) \<le> 100 - 100 / 2 ^ 53"
  shows "0 \<le> val (fl p q)" and "val (fl p q) < 100"
    and "0 \<le> fst (fl p q)" and "fst (fl p q) \<le> 2 ^ 53" and "- 1074 \<le> snd (fl p q)"
proof -
  show "0 \<le> val (fl p q)" "0 \<le> fst (fl p q)"
    using fl_nonneg [OF q p] by simp_all
  have "val (fl p q) < 100 \<and> fst (fl p q) \<le> 2 ^ 53 \<and> - 1074 \<le> snd (fl p q)"
  proof (cases "p = 0")
    case True
    then show ?thesis by (simp add: fl_def val_def)
  next
    case False
    then have p: "0 < p" using p by simp
    define x :: rat where "x = of_int p / of_int q"
    have "(100::rat) - 100 / 2 ^ 53 < 2 powi 7" by simp
    then have "x < 2 powi 7" using xle unfolding x_def by (rule le_less_trans [rotated])
    then have "fl_exp p q \<le> 7 - 53"
      unfolding x_def by (intro fl_exp_le [OF p q]) simp_all
    then have "(2::rat) powi (fl_exp p q) \<le> 2 powi (- 46)"
      by (intro powi_mono) simp
    then have "2 powi (fl_exp p q) / 2 \<le> (1 / 2 ^ 47 :: rat)"
      by (simp add: power_int_minus field_simps)
    moreover have "\<bar>val (fl p q) - x\<bar> \<le> 2 powi (fl_exp p q) / 2"
      unfolding x_def by (rule fl_err [OF q])
    ultimately have "val (fl p q) - x \<le> 1 / 2 ^ 47"
      by (meson abs_le_D1 order_trans)
    then have "val (fl p q) < 100" using xle by (simp add: x_def)
    moreover have "fst (fl p q) \<le> 2 ^ 53"
      by (rule fl_mant_le [OF p q])
    moreover have "- 1074 \<le> snd (fl p q)"
      using p by (simp add: snd_fl fl_exp_def)
    ultimately show ?thesis by blast
  qed
  then show "val (fl p q) < 100" and "fst (fl p q) \<le> 2 ^ 53" and "- 1074 \<le> snd (fl p q)"
    by blast+
qed

lemma double_of_int_100: "double_of_int 100 = (7036874417766400, - 46)"
  by (simp add: fl_eval)

lemma double_of_int_0: "double_of_int 0 = (0, 0)"
  by (simp add: double_of_int_def fl_def)

text \<open>Adding the float 0 to a non-negative float does not increase it.\<close>

lemma double_add_zero:
  assumes m: "0 \<le> fst d" "fst d \<le> 2 ^ 53" and e: "- 1074 \<le> snd d"
  shows "0 \<le> val (double_add (0, 0) d)" and "val (double_add (0, 0) d) \<le> val d"
proof -
  define c where "c = min 0 (snd d)"
  define P where "P = fst d * 2 ^ nat (snd d - c) * 2 ^ nat c"
  have da: "double_add (0, 0) d = fl P (2 ^ nat (- c))"
    by (simp add: double_add_def Let_def fl_dyadic_eq c_def P_def)
  have ratio: "(of_int P / of_int (2 ^ nat (- c)) :: rat) = val d"
  proof -
    have "(of_int P / of_int (2 ^ nat (- c)) :: rat) = of_int (fst d * 2 ^ nat (snd d - c)) * 2 powi c"
      unfolding P_def by (rule dyadic_ratio)
    also have "\<dots> = of_int (fst d) * (2 powi (snd d - c) * 2 powi c)"
      by (simp add: powi_nat c_def)
    also have "\<dots> = val d"
      by (simp add: val_def flip: powi_add)
    finally show ?thesis .
  qed
  have P0: "0 \<le> P" using m(1) by (simp add: P_def)
  show "0 \<le> val (double_add (0, 0) d)"
    unfolding da using fl_nonneg [of "2 ^ nat (- c)" P] P0 by simp
  show "val (double_add (0, 0) d) \<le> val d"
  proof (cases "fst d = 0")
    case True
    then show ?thesis by (simp add: da P_def val_def fl_def)
  next
    case False
    then have "0 < fst d" using m(1) by simp
    moreover have "(of_int P / of_int (2 ^ nat (- c)) :: rat) \<le> of_int (fst d) * 2 powi (snd d)"
      unfolding ratio val_def by simp
    ultimately have "val (fl P (2 ^ nat (- c))) \<le> of_int (fst d) * 2 powi (snd d)"
      using m(2) e by (intro fl_upper) simp_all
    then show ?thesis by (simp add: da val_def)
  qed
qed

text \<open>
  C6. The value of every data line is \<open>random.uniform(0, 100)\<close> for one result of
  \<open>random()\<close>, a float \<open>k / 2 ^ 53\<close> with \<open>0 \<le> k < 2 ^ 53\<close>. Computed in binary64
  as \<open>0 + (100 - 0) * r\<close>, it is at least 0 and strictly below 100: the largest product,
  \<open>100 - 100 / 2 ^ 53\<close>, rounds down.
\<close>

theorem value_in_range:
  "0 \<le> val (uniform 0 100 (random en k)) \<and> val (uniform 0 100 (random en k)) < 100"
proof -
  define K where "K = uint (random53 en k)"
  have K: "0 \<le> K" "K < 2 ^ 53"
    using uint_lt2p [of "random53 en k"] by (simp_all add: K_def)
  define d where "d = fl (7036874417766400 * K) (2 ^ 99)"
  have u: "uniform 0 100 (random en k) = double_add (0, 0) d"
    by (simp add: uniform_def random_def double_of_int_100 double_of_int_0 double_mul_def
        fl_dyadic_eq d_def K_def)
  have "K \<le> 2 ^ 53 - 1" using K by simp
  then have "(of_int K :: rat) \<le> of_int (2 ^ 53 - 1)" by (simp only: of_int_le_iff)
  then have x: "(of_int (7036874417766400 * K) / of_int (2 ^ 99) :: rat) \<le> 100 - 100 / 2 ^ 53"
    by (simp add: field_simps)
  have p: "0 \<le> 7036874417766400 * K" using K by simp
  have d: "val d < 100" "0 \<le> fst d" "fst d \<le> 2 ^ 53" "- 1074 \<le> snd d"
    unfolding d_def using fl_below_100 [OF p _ x] by simp_all
  show ?thesis
    unfolding u using double_add_zero [OF d(2,3,4)] d(1) by simp
qed

subsection \<open>The characters of a line\<close>

lemma digit_char_in: "d < 10 \<Longrightarrow> digit_char d \<in> set ''0123456789''"
  unfolding digit_char_def by (rule nth_mem) simp

lemma str_nat_chars: "set (str_nat n) \<subseteq> set ''0123456789''"
proof (induction n rule: str_nat.induct)
  case (1 n)
  show ?case
  proof (cases "n < 10")
    case True
    have "str_nat n = [digit_char n]"
      using True by (subst str_nat.simps) simp
    then show ?thesis
      using digit_char_in [OF True] by simp
  next
    case False
    have "n mod 10 < 10" by simp
    then have d: "digit_char (n mod 10) \<in> set ''0123456789''" by (rule digit_char_in)
    have "str_nat n = str_nat (n div 10) @ [digit_char (n mod 10)]"
      using False by (subst str_nat.simps) simp
    then have "set (str_nat n) = set (str_nat (n div 10)) \<union> {digit_char (n mod 10)}"
      by (simp only: set_append list.set)
    then show ?thesis
      using "1.IH" [OF False] d by blast
  qed
qed

lemma str_int_chars: "set (str_int i) \<subseteq> set ''-0123456789''"
proof -
  define D where "D = set ''0123456789''"
  define E where "E = set ''-0123456789''"
  have sub: "D \<subseteq> E"
    unfolding D_def E_def by (rule set_subset_Cons)
  have m: "CHR ''-'' \<in> E"
    unfolding E_def by (rule list.set_intros(1))
  have n: "set (str_nat k) \<subseteq> E" for k
    using str_nat_chars [of k] sub unfolding D_def by (rule order_trans)
  have "set (str_int i) \<subseteq> E"
  proof (cases "i < 0")
    case True
    then have "str_int i = CHR ''-'' # str_nat (nat (- i))"
      by (simp add: str_int_def)
    then show ?thesis using n [of "nat (- i)"] m by simp
  next
    case False
    then have "str_int i = str_nat (nat i)"
      by (simp add: str_int_def)
    then show ?thesis using n [of "nat i"] by simp
  qed
  then show ?thesis unfolding E_def .
qed

lemma str_int_nonempty: "str_int i \<noteq> []"
  by (simp add: str_int_def str_nat_nonempty)

lemma hex_char_in: "d < 16 \<Longrightarrow> hex_char d \<in> set ''0123456789abcdef''"
  unfolding hex_char_def by (rule nth_mem) simp

lemma hex32_chars: "set (hex32 u) \<subseteq> set ''0123456789abcdef''"
  unfolding hex32_def set_map
proof (rule image_subsetI)
  fix i
  have "unat (drop_bit (4 * (31 - i)) u) mod 16 < 16" by simp
  then show "hex_char (unat (drop_bit (4 * (31 - i)) u) mod 16) \<in> set ''0123456789abcdef''"
    by (rule hex_char_in)
qed

lemma str_uuid_chars: "set (str_uuid u) \<subseteq> set ''-0123456789abcdef''"
proof -
  define H where "H = set ''-0123456789abcdef''"
  have "set ''0123456789abcdef'' \<subseteq> H"
    unfolding H_def by (rule set_subset_Cons)
  then have h: "set (hex32 u) \<subseteq> H"
    using hex32_chars [of u] by (rule order_trans [rotated])
  have "CHR ''-'' \<in> H"
    unfolding H_def by (rule list.set_intros(1))
  then have m: "set ''-'' \<subseteq> H" by simp
  have t: "set (take n xs) \<subseteq> H" "set (drop n xs) \<subseteq> H" if "set xs \<subseteq> H" for n and xs :: string
    using order_trans [OF set_take_subset that] order_trans [OF set_drop_subset that]
    by this+
  have "set (str_uuid u) \<subseteq> H"
    unfolding str_uuid_def Let_def set_append
    by (intro Un_least t h m)
  then show ?thesis unfolding H_def .
qed

lemma plainI:
  assumes "set s \<subseteq> A" and "CHR '','' \<notin> A" and "CHR 0x0A \<notin> A"
  shows "plain s"
  using assms unfolding plain_def by blast

lemma str_int_plain: "plain (str_int i)"
  using str_int_chars [of i] by (rule plainI) simp_all

lemma str_uuid_plain: "plain (str_uuid u)"
  using str_uuid_chars [of u] by (rule plainI) simp_all

lemma plain_append: "plain (a @ b) \<longleftrightarrow> plain a \<and> plain b"
  by (auto simp: plain_def)

lemma hd_str_int_not_t: "hd (str_int i) \<noteq> CHR ''t''"
proof
  assume h: "hd (str_int i) = CHR ''t''"
  have "hd (str_int i) \<in> set (str_int i)"
    using str_int_nonempty [of i] by (rule hd_in_set)
  then have "hd (str_int i) \<in> set ''-0123456789''"
    using str_int_chars [of i] by (rule subsetD [rotated])
  then have "CHR ''t'' \<in> set ''-0123456789''"
    by (simp only: h)
  then show False by simp
qed

subsection \<open>The characters of a float\<close>

lemma strip_zeros_chars: "set (strip_zeros s) \<subseteq> set s"
proof
  fix c assume "c \<in> set (strip_zeros s)"
  then have "c \<in> set (dropWhile (\<lambda>c. c = CHR ''0'') (rev s))"
    by (simp add: strip_zeros_def)
  then have "c \<in> set (rev s)" by (rule set_dropWhileD)
  then show "c \<in> set s" by simp
qed

lemma shortest_from_chars: "set (fst (shortest_from d p q D ns)) \<subseteq> set ''0123456789''"
proof (induction ns)
  case Nil
  show ?case by simp
next
  case (Cons n ns)
  show ?case
  proof (cases "pick d p q D n")
    case None
    then show ?thesis using Cons.IH by simp
  next
    case (Some c)
    have "set (strip_zeros (str_nat (nat c))) \<subseteq> set ''0123456789''"
      using strip_zeros_chars str_nat_chars by (rule order_trans)
    then show ?thesis using Some by simp
  qed
qed

lemma shortest_chars: "set (fst (shortest d)) \<subseteq> set ''0123456789''"
  unfolding shortest_def Let_def by (rule shortest_from_chars)

lemma exp_text_chars: "set (exp_text ex) \<subseteq> set ''0123456789.e+-''"
proof -
  define A where "A = set ''0123456789.e+-''"
  have d: "set ''0123456789'' \<subseteq> A" unfolding A_def by simp
  have n: "set (str_nat k) \<subseteq> A" for k
    using str_nat_chars [of k] d by (rule order_trans)
  have c: "CHR ''-'' \<in> A" "CHR ''+'' \<in> A" "CHR ''0'' \<in> A"
    unfolding A_def by simp_all
  have "set (exp_text ex) \<subseteq> A"
    unfolding exp_text_def using n [of "nat \<bar>ex\<bar>"] c by auto
  then show ?thesis unfolding A_def .
qed

lemma format_float_short_chars:
  assumes "set digits \<subseteq> set ''0123456789''"
  shows "set (format_float_short digits dp) \<subseteq> set ''0123456789.e+-''"
proof -
  define A where "A = set ''0123456789.e+-''"
  have "set ''0123456789'' \<subseteq> A" unfolding A_def by simp
  then have d: "set digits \<subseteq> A" using assms by (rule order_trans [rotated])
  have t: "set (take n digits) \<subseteq> A" "set (drop n digits) \<subseteq> A" for n
    using order_trans [OF set_take_subset d] order_trans [OF set_drop_subset d] by this+
  have c: "CHR ''.'' \<in> A" "CHR ''e'' \<in> A" "CHR ''0'' \<in> A"
    unfolding A_def by simp_all
  have e: "set (exp_text ex) \<subseteq> A" for ex
    unfolding A_def by (rule exp_text_chars)
  have z: "set (replicate n (CHR ''0'')) \<subseteq> A" for n
    using c(3) by (induction n) simp_all
  have "set (format_float_short digits dp) \<subseteq> A"
    unfolding format_float_short_def Let_def
    using d c e z by (auto simp del: set_replicate dest!: in_set_dropD in_set_takeD)
  then show ?thesis unfolding A_def .
qed

lemma repr_float_chars: "set (repr_float d) \<subseteq> set ''0123456789.e+-''"
proof -
  define A where "A = set ''0123456789.e+-''"
  have f: "set (format_float_short (fst (shortest x)) (snd (shortest x))) \<subseteq> A" for x
    unfolding A_def using shortest_chars by (rule format_float_short_chars)
  have c: "CHR ''-'' \<in> A" "CHR ''0'' \<in> A" "CHR ''.'' \<in> A"
    unfolding A_def by simp_all
  have "set (repr_float d) \<subseteq> A"
    unfolding repr_float_def using f c by simp
  then show ?thesis unfolding A_def .
qed

lemma repr_float_plain: "plain (repr_float d)"
  using repr_float_chars [of d] by (rule plainI) simp_all

subsection \<open>The fields and the lines of the file\<close>

lemma split_commas_plain:
  "CHR '','' \<notin> set a \<Longrightarrow> split_commas acc a = [acc @ a]"
  by (induction a arbitrary: acc) auto

lemma split_commas_field:
  "CHR '','' \<notin> set a \<Longrightarrow>
   split_commas acc (a @ CHR '','' # rest) = (acc @ a) # split_commas [] rest"
  by (induction a arbitrary: acc) auto

lemma csv_line_butlast:
  "butlast (csv_line ts r v) =
      str_int ts @ CHR '','' # str_uuid (channel r) @ CHR '','' # subtopic r @ CHR '','' #
      str_uuid (publisher r) @ CHR '','' # ''mqtt'' @ CHR '','' # name r @ CHR '','' #
      ''unit'' @ CHR '','' # repr_float v"
  unfolding csv_line_def by (simp add: butlast_append)

lemma csv_line_snoc: "csv_line ts r v = butlast (csv_line ts r v) @ [CHR 0x0A]"
  unfolding csv_line_butlast unfolding csv_line_def by simp

lemma csv_line_fields:
  assumes "plain (subtopic r)" and "plain (name r)"
  shows "fields (butlast (csv_line ts r v)) =
     [str_int ts, str_uuid (channel r), subtopic r, str_uuid (publisher r), ''mqtt'',
      name r, ''unit'', repr_float v]"
proof -
  have m: "CHR '','' \<notin> set ''mqtt''" "CHR '','' \<notin> set ''unit''" by simp_all
  have p: "CHR '','' \<notin> set (str_int ts)" "CHR '','' \<notin> set (str_uuid u)"
    "CHR '','' \<notin> set (repr_float v)" "CHR '','' \<notin> set (subtopic r)"
    "CHR '','' \<notin> set (name r)" for u
    using str_int_plain [of ts] str_uuid_plain [of u] repr_float_plain [of v] assms
    by (simp_all add: plain_def)
  show ?thesis
    unfolding fields_def csv_line_butlast
    by (simp only: split_commas_field split_commas_plain p m not_False_eq_True append_Nil)
qed

lemma csv_line_commas:
  assumes "plain (subtopic r)" and "plain (name r)"
  shows "length (filter (\<lambda>c. c = CHR '','') (butlast (csv_line ts r v))) = 7"
proof -
  have z: "filter (\<lambda>c. c = CHR '','') s = []" if "plain s" for s
    using that by (simp add: filter_empty_conv plain_def) metis
  show ?thesis
    using assms unfolding csv_line_butlast
    by (simp add: z str_int_plain str_uuid_plain repr_float_plain)
qed

lemma csv_line_no_newline:
  assumes "plain (subtopic r)" and "plain (name r)"
  shows "CHR 0x0A \<notin> set (butlast (csv_line ts r v))"
  using assms str_int_plain [of ts] str_uuid_plain [of "channel r"]
    str_uuid_plain [of "publisher r"] repr_float_plain [of v]
  unfolding csv_line_butlast plain_def by simp

lemma split_lines_line:
  "CHR 0x0A \<notin> set a \<Longrightarrow>
   split_lines acc (a @ CHR 0x0A # rest) = (acc @ a) # split_lines [] rest"
  by (induction a arbitrary: acc) auto

text \<open>When every string written is one line with its newline, the lines of the file are
  these strings without their newlines.\<close>

lemma file_lines_map:
  assumes "\<And>l. l \<in> set ls \<Longrightarrow> CHR 0x0A \<notin> set l"
  shows "file_lines (map (\<lambda>l. l @ [CHR 0x0A]) ls) = ls"
  using assms
proof (induction ls)
  case Nil
  then show ?case by (simp add: file_lines_def)
next
  case (Cons l ls)
  have "file_lines (map (\<lambda>l. l @ [CHR 0x0A]) (l # ls))
      = split_lines [] (l @ CHR 0x0A # concat (map (\<lambda>l. l @ [CHR 0x0A]) ls))"
    by (simp add: file_lines_def)
  also have "\<dots> = l # file_lines (map (\<lambda>l. l @ [CHR 0x0A]) ls)"
    using Cons.prems by (simp add: split_lines_line file_lines_def)
  finally show ?case using Cons by simp
qed

lemma catalog_labels_plain:
  assumes "r \<in> set (catalog cfg en)"
  shows "plain (subtopic r)" and "plain (name r)"
proof -
  obtain a where r: "r = entity cfg en a"
    using assms by (auto simp: catalog_eq)
  have s: "plain ''subtopic_''" "plain ''metric_''" by (simp_all add: plain_def)
  show "plain (subtopic r)"
    unfolding r entity_sel plain_append using s str_int_plain by simp
  show "plain (name r)"
    unfolding r entity_sel plain_append using s str_int_plain by simp
qed

lemma catalog_nth_plain:
  assumes "k < m * length (catalog cfg en)"
  shows "plain (subtopic (catalog cfg en ! (k mod length (catalog cfg en))))"
    and "plain (name (catalog cfg en ! (k mod length (catalog cfg en))))"
proof -
  have "0 < length (catalog cfg en)"
    using assms by (cases "length (catalog cfg en)") simp_all
  then have "catalog cfg en ! (k mod length (catalog cfg en)) \<in> set (catalog cfg en)"
    by (intro nth_mem) simp
  then show "plain (subtopic (catalog cfg en ! (k mod length (catalog cfg en))))"
    and "plain (name (catalog cfg en ! (k mod length (catalog cfg en))))"
    by (rule catalog_labels_plain)+
qed

text \<open>The lines of a file that holds the header and the first data lines.\<close>

lemma file_lines_data:
  "file_lines (header # map (data_line cfg en s iv) [0..<m * length (catalog cfg en)])
     = ''time,channel,subtopic,publisher,protocol,name,unit,value''
       # map (\<lambda>k. butlast (data_line cfg en s iv k)) [0..<m * length (catalog cfg en)]"
proof -
  define T where "T = m * length (catalog cfg en)"
  define ls where "ls = ''time,channel,subtopic,publisher,protocol,name,unit,value''
       # map (\<lambda>k. butlast (data_line cfg en s iv k)) [0..<T]"
  have "header # map (data_line cfg en s iv) [0..<T] = map (\<lambda>l. l @ [CHR 0x0A]) ls"
    unfolding ls_def
    by (simp add: header_def data_line_def csv_line_snoc [symmetric])
  moreover have "CHR 0x0A \<notin> set l" if mem: "l \<in> set ls" for l
  proof (cases "l = ''time,channel,subtopic,publisher,protocol,name,unit,value''")
    case True
    then show ?thesis by simp
  next
    case False
    then obtain k where k: "k < T" and l: "l = butlast (data_line cfg en s iv k)"
      using mem by (auto simp: ls_def)
    show ?thesis
      unfolding l data_line_def
      using catalog_nth_plain [OF k [unfolded T_def]] by (rule csv_line_no_newline)
  qed
  ultimately have "file_lines (header # map (data_line cfg en s iv) [0..<T]) = ls"
    using file_lines_map [of ls] by simp
  then show ?thesis unfolding ls_def T_def .
qed

lemma written_eq:
  assumes "time_grid cfg en = Inr (s, iv, n)"
  shows "written (main cfg en)
       = header # map (data_line cfg en s iv) [0..<reached en s iv n * length (catalog cfg en)]"
  unfolding main_eq [OF assms] by (simp add: written_def Let_def)

lemma written_none:
  assumes "time_grid cfg en = Inl err"
  shows "written (main cfg en) = []" and "main cfg en = Raised err None"
  using assms by (simp_all add: written_def main_def Let_def)

subsection \<open>The runs\<close>

lemma not_inf:
  assumes "\<bar>fst d\<bar> \<le> 2 ^ 64" and "snd d \<le> 900"
  shows "is_inf d = False"
proof -
  have "\<bar>val d\<bar> = of_int \<bar>fst d\<bar> * 2 powi (snd d)"
    by (simp add: val_def abs_mult)
  also have "\<dots> \<le> of_int (2 ^ 64) * 2 powi 900"
    using assms by (intro mult_mono powi_mono) (simp_all only: of_int_le_iff, simp_all)
  also have "\<dots> = 2 powi 964"
    by (simp add: powi_add [symmetric])
  also have "\<dots> < 2 ^ 1024" by simp
  finally show ?thesis by (simp add: is_inf_def)
qed

lemmas ts_eval = grid_ns_def timedelta_mul_def timedelta_new_def datetime_add_def
  datetime_new_def timestamp_ns_def ns_float_def timestamp_def mktime_def local_def not_inf

lemma time_grid_cfg2:
  "time_grid cfg2 env0 = Inr (43200000001, 63929347200000000, 1)"
  "time_grid cfg2 env1 = Inr (86400500000, 63929347200000000, 1)"
  "time_grid cfg3 env0 = Inr (43200000001, 63929347200000000, 1)"
  using time_grid_pos [OF _ _ valid_now_env0, of cfg2]
    time_grid_pos [OF _ _ valid_now_env1, of cfg2]
    time_grid_pos [OF _ _ valid_now_env0, of cfg3]
  by (simp_all add: cfg2_def cfg3_def env0_def env1_def)

lemma time_grid_cfg6: "time_grid cfg6 env0 = Inl ZeroDivisionError"
  by (simp add: time_grid_def timedelta_days_def timedelta_minutes_def timedelta_new_def
      datetime_sub_def datetime_new_def int_truediv_def cfg6_def cfg0_def env0_def)

lemma grid_ns_cfg2:
  "grid_ns env0 43200000001 63929347200000000 0 = Inl ValueError"
  "grid_ns env1 86400500000 63929347200000000 0 = Inr (- 62135510399500001280)"
  by (simp_all add: ts_eval env0_def env1_def fl_eval)

lemma grid_ns_cfg0:
  "grid_ns env0 63929304000000001 43200000000 0 = Inr 1793707200000001024"
  "grid_ns env0 63929304000000001 43200000000 1 = Inr 1793750400000001024"
  "grid_ns env1 63929347200500000 43200000000 0 = Inr 1793750400500000000"
  "grid_ns env1 63929347200500000 43200000000 1 = Inr 1793793600500000000"
  by (simp_all add: ts_eval env0_def env1_def fl_eval)

subsection \<open>The rows written\<close>

lemma main_Done:
  assumes "main cfg en = Done f"
  obtains s iv n where "time_grid cfg en = Inr (s, iv, n)"
    and "reached en s iv n = nat n"
    and "f = header # map (data_line cfg en s iv) [0..<nat n * length (catalog cfg en)]"
proof (cases "time_grid cfg en")
  case (Inl err)
  then show ?thesis using assms written_none(2) [of cfg en err] by simp
next
  case (Inr g)
  obtain s iv n where g: "g = (s, iv, n)" by (cases g)
  have tg: "time_grid cfg en = Inr (s, iv, n)" using Inr g by simp
  have r: "reached en s iv n = nat n"
    using assms unfolding main_eq [OF tg] Let_def by (simp split: if_splits)
  have "f = header # map (data_line cfg en s iv) [0..<nat n * length (catalog cfg en)]"
    using assms unfolding main_eq [OF tg] Let_def r by simp
  with tg r show ?thesis by (rule that)
qed

lemma main_Done_iff:
  assumes "time_grid cfg en = Inr (s, iv, n)"
  shows "main cfg en = Done f \<longleftrightarrow>
     reached en s iv n = nat n
     \<and> f = header # map (data_line cfg en s iv) [0..<nat n * length (catalog cfg en)]"
  unfolding main_eq [OF assms] Let_def by auto

lemma data_rows_written:
  assumes "time_grid cfg en = Inr (s, iv, n)"
  shows "data_rows (written (main cfg en))
       = map (\<lambda>k. butlast (data_line cfg en s iv k))
           [0..<reached en s iv n * length (catalog cfg en)]"
  unfolding written_eq [OF assms] data_rows_def file_lines_data by simp

lemma data_rows_none:
  assumes "time_grid cfg en = Inl err"
  shows "data_rows (written (main cfg en)) = []"
  unfolding written_none(1) [OF assms] by (simp add: data_rows_def file_lines_def)

lemma data_row_fields:
  assumes k: "k < m * length (catalog cfg en)"
  shows "fields (butlast (data_line cfg en s iv k)) =
     [str_int (projr (grid_ns en s iv (int (k div length (catalog cfg en))))),
      str_uuid (channel (catalog cfg en ! (k mod length (catalog cfg en)))),
      subtopic (catalog cfg en ! (k mod length (catalog cfg en))),
      str_uuid (publisher (catalog cfg en ! (k mod length (catalog cfg en)))),
      ''mqtt'',
      name (catalog cfg en ! (k mod length (catalog cfg en))),
      ''unit'',
      repr_float (uniform 0 100 (random en k))]"
    and "length (filter (\<lambda>c. c = CHR '','') (butlast (data_line cfg en s iv k))) = 7"
  unfolding data_line_def
  using catalog_nth_plain [OF k] by (rule csv_line_fields, rule csv_line_commas)

lemma data_row_not_header:
  "butlast (data_line cfg en s iv k) \<noteq> ''time,channel,subtopic,publisher,protocol,name,unit,value''"
proof
  assume "butlast (data_line cfg en s iv k)
      = ''time,channel,subtopic,publisher,protocol,name,unit,value''"
  then have "hd (butlast (data_line cfg en s iv k)) = CHR ''t''" by simp
  moreover have "hd (butlast (data_line cfg en s iv k))
      = hd (str_int (projr (grid_ns en s iv (int (k div length (catalog cfg en))))))"
    unfolding data_line_def csv_line_butlast using str_int_nonempty by simp
  ultimately show False using hd_str_int_not_t by simp
qed

lemma time_grid_count_same:
  assumes "time_grid cfg en = Inr (s, iv, n)" and "time_grid cfg en' = Inr (s', iv', n')"
  shows "n' = n" and "iv' = iv"
  using assms unfolding time_grid_Inr by simp_all

lemma data_line_labels:
  assumes k: "k < m * length (catalog cfg en)"
  shows "labels (butlast (data_line cfg en s iv k))
       = (''subtopic_'' @ str_int (1 + int (k mod catalog_size cfg div nat (num_metrics cfg)
                                      div nat (num_publisher cfg) mod nat (num_subtopic cfg))),
          ''metric_'' @ str_int (1 + int (k mod catalog_size cfg mod nat (num_metrics cfg))))"
proof -
  have N: "0 < catalog_size cfg"
    using k by (cases "catalog_size cfg") (simp_all add: length_catalog)
  then have e: "catalog cfg en ! (k mod catalog_size cfg) = entity cfg en (k mod catalog_size cfg)"
    by (simp add: catalog_eq)
  show ?thesis
    unfolding labels_def data_row_fields(1) [OF k]
    by (simp add: length_catalog e entity_sel)
qed

lemma reached_cfg0:
  "reached env0 63929304000000001 43200000000 2 = 2"
  "reached env1 63929347200500000 43200000000 2 = 2"
proof -
  have c: "i = 0 \<or> i = 1" if "0 \<le> i" "i < 2" for i :: int
    using that by linarith
  show "reached env0 63929304000000001 43200000000 2 = 2"
    using reached_all [of 2 env0 63929304000000001 43200000000] c grid_ns_cfg0(1,2)
    by fastforce
  show "reached env1 63929347200500000 43200000000 2 = 2"
    using reached_all [of 2 env1 63929347200500000 43200000000] c grid_ns_cfg0(3,4)
    by fastforce
qed

lemma reached_cfg2:
  "reached env0 43200000001 63929347200000000 1 = 0"
  "reached env1 86400500000 63929347200000000 1 = 1"
proof -
  show "reached env0 43200000001 63929347200000000 1 = 0"
    by (rule reached_first) (simp_all add: grid_ns_cfg2(1))
  have c: "i = 0" if "0 \<le> i" "i < 1" for i :: int
    using that by linarith
  show "reached env1 86400500000 63929347200000000 1 = 1"
    using reached_all [of 1 env1 86400500000 63929347200000000] c grid_ns_cfg2(2)
    by fastforce
qed

lemma length_catalog_cfg2: "length (catalog cfg2 en) = 1" "length (catalog cfg3 en) = 0"
  by (simp_all add: length_catalog catalog_size_def cfg2_def cfg3_def)

lemma main_cfg0:
  "main cfg0 env0 = Done (header # map (data_line cfg0 env0 63929304000000001 43200000000) [0..<8])"
  unfolding main_Done_iff [OF time_grid_cfg0(1)]
  by (simp add: reached_cfg0 length_catalog_cfg0)

lemma main_cfg0_env1:
  "main cfg0 env1 = Done (header # map (data_line cfg0 env1 63929347200500000 43200000000) [0..<8])"
  unfolding main_Done_iff [OF time_grid_cfg0(2)]
  by (simp add: reached_cfg0 length_catalog_cfg0)

lemma main_cfg2:
  "main cfg2 env0 = Raised ValueError (Some [header])"
  "main cfg2 env1 = Done [header, data_line cfg2 env1 86400500000 63929347200000000 0]"
  "main cfg3 env0 = Raised ValueError (Some [header])"
  unfolding main_eq [OF time_grid_cfg2(1)] main_eq [OF time_grid_cfg2(2)]
    main_eq [OF time_grid_cfg2(3)]
  by (simp_all add: reached_cfg2 length_catalog_cfg2 grid_ns_cfg2 Let_def)

lemma file_lines_header:
  "file_lines [header] = [''time,channel,subtopic,publisher,protocol,name,unit,value'']"
proof -
  have "file_lines (header # map (data_line cfg0 env0 0 0) [0..<0 * length (catalog cfg0 env0)])
     = ''time,channel,subtopic,publisher,protocol,name,unit,value''
       # map (\<lambda>k. butlast (data_line cfg0 env0 0 0 k)) [0..<0 * length (catalog cfg0 env0)]"
    by (rule file_lines_data)
  then show ?thesis by (simp only: mult_0 upt_0 list.map)
qed

lemma count_list_header:
  "count_list (map (\<lambda>k. butlast (data_line cfg en s iv k)) ks)
     ''time,channel,subtopic,publisher,protocol,name,unit,value'' = 0"
proof -
  define h where "h = ''time,channel,subtopic,publisher,protocol,name,unit,value''"
  have "butlast (data_line cfg en s iv k) \<noteq> h" for k
    unfolding h_def by (rule data_row_not_header)
  then have "h \<notin> set (map (\<lambda>k. butlast (data_line cfg en s iv k)) ks)"
    by auto
  then show ?thesis
    unfolding h_def by (simp only: count_list_0_iff not_False_eq_True)
qed

text \<open>
  C2, as stated, fails. With one tuple in the catalog and a window of 739923 days that holds
  one timestamp, generated at 2026-11-04T12:00:00.000001 where local time is UTC, the
  window starts at 0001-01-01T12:00:00.000001. Line 59 writes the header; then
  \<open>timestamp.timestamp()\<close> at line 63 raises \<open>ValueError\<close>, because
  \<open>datetime._mktime\<close> looks at local time one day earlier, in the year 0. The file holds
  the header and no data row, not 1 * 1 rows.
\<close>

theorem rows_written_counterexample:
  "length (catalog cfg2 env0) = 1
   \<and> time_grid cfg2 env0 = Inr (43200000001, 63929347200000000, 1)
   \<and> main cfg2 env0 = Raised ValueError (Some [header])
   \<and> file_lines (written (main cfg2 env0))
       = [''time,channel,subtopic,publisher,protocol,name,unit,value'']
   \<and> length (data_rows (written (main cfg2 env0))) \<noteq> length (catalog cfg2 env0) * nat 1"
proof -
  have w: "written (main cfg2 env0) = [header]"
    unfolding main_cfg2(1) by (simp add: written_def)
  have "length (data_rows (written (main cfg2 env0))) = 0"
    unfolding w data_rows_def file_lines_header by simp
  then show ?thesis
    unfolding w file_lines_header
    using time_grid_cfg2(1) main_cfg2(1) length_catalog_cfg2(1) [of env0]
    by (simp only: nat_1 mult_1, simp)
qed

text \<open>
  C2, as amended. In a run that raises no exception, with \<open>n\<close> timestamps in its time
  grid, the first line of the file is the header
  \<open>time,channel,subtopic,publisher,protocol,name,unit,value\<close>, no other line is equal
  to it, and the lines after it, the data rows, are (catalog size) times \<open>n\<close> many.
\<close>

theorem rows_written:
  assumes "main cfg en = Done f" and "time_grid cfg en = Inr (s, iv, n)"
  shows "file_lines f
           = ''time,channel,subtopic,publisher,protocol,name,unit,value'' # data_rows f
       \<and> length (data_rows f) = length (catalog cfg en) * nat n
       \<and> count_list (file_lines f)
           ''time,channel,subtopic,publisher,protocol,name,unit,value'' = 1"
proof -
  define h where "h = ''time,channel,subtopic,publisher,protocol,name,unit,value''"
  define T where "T = nat n * length (catalog cfg en)"
  define rows where "rows = map (\<lambda>k. butlast (data_line cfg en s iv k)) [0..<T]"
  have f: "f = header # map (data_line cfg en s iv) [0..<T]"
    using assms(1) unfolding main_Done_iff [OF assms(2)] T_def by simp
  have l: "file_lines f = h # rows"
    unfolding f T_def rows_def h_def by (rule file_lines_data)
  have c: "count_list rows h = 0"
    unfolding rows_def h_def by (rule count_list_header)
  have "file_lines f = h # data_rows f \<and> length (data_rows f) = length (catalog cfg en) * nat n
      \<and> count_list (file_lines f) h = 1"
    unfolding data_rows_def l using c by (simp add: rows_def T_def mult.commute)
  then show ?thesis unfolding h_def .
qed

theorem rows_written_witness:
  "file_lines (written (main cfg0 env0))
     = ''time,channel,subtopic,publisher,protocol,name,unit,value''
       # data_rows (written (main cfg0 env0))
   \<and> length (data_rows (written (main cfg0 env0))) = 8
   \<and> count_list (file_lines (written (main cfg0 env0)))
       ''time,channel,subtopic,publisher,protocol,name,unit,value'' = 1"
proof -
  have m: "main cfg0 env0 = Done (written (main cfg0 env0))"
    unfolding main_cfg0 by (simp add: written_def)
  have len: "length (catalog cfg0 env0) * nat 2 = 8"
    by (simp add: length_catalog_cfg0)
  show ?thesis
    using rows_written [OF m time_grid_cfg0(1)] unfolding len .
qed

lemma data_rows_exist:
  assumes "k < length (data_rows (written (main cfg en)))"
  obtains s iv n where "time_grid cfg en = Inr (s, iv, n)"
    and "k < reached en s iv n * length (catalog cfg en)"
proof (cases "time_grid cfg en")
  case (Inl err)
  then show ?thesis using assms data_rows_none [of cfg en err] by simp
next
  case (Inr g)
  obtain s iv n where g: "g = (s, iv, n)" by (cases g)
  have tg: "time_grid cfg en = Inr (s, iv, n)" using Inr g by simp
  have "k < reached en s iv n * length (catalog cfg en)"
    using assms unfolding data_rows_written [OF tg] by simp
  with tg show ?thesis by (rule that)
qed

lemma reached_row:
  assumes "k < reached en s iv n * length (catalog cfg en)"
  shows "grid_ns en s iv (int (k div length (catalog cfg en)))
       = Inr (projr (grid_ns en s iv (int (k div length (catalog cfg en)))))"
proof -
  have "k div length (catalog cfg en) < reached en s iv n"
    using assms by (simp add: less_mult_imp_div_less)
  then have "\<not> isl (grid_ns en s iv (int (k div length (catalog cfg en))))"
    by (rule reached_ok)
  then show ?thesis by simp
qed

text \<open>
  C5. In every run, whatever its end, data row \<open>k\<close> of the file (from 0, after the
  header) is the f-string of line 66 for timestamp \<open>k div |catalog|\<close> of the time grid,
  tuple \<open>k mod |catalog|\<close> of the catalog and random draw \<open>k\<close>; its fields, in order,
  are that timestamp, the tuple's channel, subtopic and publisher, the literal \<open>mqtt\<close>,
  the tuple's name, the literal \<open>unit\<close>, and the text of the value.
\<close>

theorem row_order:
  assumes "k < length (data_rows (written (main cfg en)))"
  shows "\<exists>s iv n ts. time_grid cfg en = Inr (s, iv, n)
     \<and> grid_ns en s iv (int (k div length (catalog cfg en))) = Inr ts
     \<and> written (main cfg en) ! Suc k
         = csv_line ts (catalog cfg en ! (k mod length (catalog cfg en)))
             (uniform 0 100 (random en k))
     \<and> fields (data_rows (written (main cfg en)) ! k) =
         [str_int ts,
          str_uuid (channel (catalog cfg en ! (k mod length (catalog cfg en)))),
          subtopic (catalog cfg en ! (k mod length (catalog cfg en))),
          str_uuid (publisher (catalog cfg en ! (k mod length (catalog cfg en)))),
          ''mqtt'',
          name (catalog cfg en ! (k mod length (catalog cfg en))),
          ''unit'',
          repr_float (uniform 0 100 (random en k))]"
proof -
  obtain s iv n where tg: "time_grid cfg en = Inr (s, iv, n)"
    and k: "k < reached en s iv n * length (catalog cfg en)"
    using assms by (rule data_rows_exist)
  define ts where "ts = projr (grid_ns en s iv (int (k div length (catalog cfg en))))"
  have g: "grid_ns en s iv (int (k div length (catalog cfg en))) = Inr ts"
    unfolding ts_def using k by (rule reached_row)
  have w: "written (main cfg en) ! Suc k
         = csv_line ts (catalog cfg en ! (k mod length (catalog cfg en)))
             (uniform 0 100 (random en k))"
    unfolding written_eq [OF tg] using k by (simp add: data_line_def ts_def)
  have f: "fields (data_rows (written (main cfg en)) ! k) =
         [str_int ts,
          str_uuid (channel (catalog cfg en ! (k mod length (catalog cfg en)))),
          subtopic (catalog cfg en ! (k mod length (catalog cfg en))),
          str_uuid (publisher (catalog cfg en ! (k mod length (catalog cfg en)))),
          ''mqtt'',
          name (catalog cfg en ! (k mod length (catalog cfg en))),
          ''unit'',
          repr_float (uniform 0 100 (random en k))]"
    unfolding data_rows_written [OF tg] ts_def
    using k data_row_fields(1) [OF k, of s iv] by simp
  show ?thesis
    using tg g w f by blast
qed

lemma length_data_rows_cfg0: "length (data_rows (written (main cfg0 env0))) = 8"
  unfolding data_rows_written [OF time_grid_cfg0(1)]
  by (simp add: reached_cfg0 length_catalog_cfg0)

theorem row_order_witness:
  "\<exists>s iv n ts. time_grid cfg0 env0 = Inr (s, iv, n)
     \<and> grid_ns env0 s iv (int (5 div length (catalog cfg0 env0))) = Inr ts
     \<and> written (main cfg0 env0) ! Suc 5
         = csv_line ts (catalog cfg0 env0 ! (5 mod length (catalog cfg0 env0)))
             (uniform 0 100 (random env0 5))
     \<and> fields (data_rows (written (main cfg0 env0)) ! 5) =
         [str_int ts,
          str_uuid (channel (catalog cfg0 env0 ! (5 mod length (catalog cfg0 env0)))),
          subtopic (catalog cfg0 env0 ! (5 mod length (catalog cfg0 env0))),
          str_uuid (publisher (catalog cfg0 env0 ! (5 mod length (catalog cfg0 env0)))),
          ''mqtt'',
          name (catalog cfg0 env0 ! (5 mod length (catalog cfg0 env0))),
          ''unit'',
          repr_float (uniform 0 100 (random env0 5))]"
proof -
  have "5 < length (data_rows (written (main cfg0 env0)))"
    unfolding length_data_rows_cfg0 by simp
  then show ?thesis by (rule row_order)
qed

text \<open>
  C10. In every run, every data row of the file has exactly 7 commas and so exactly 8
  fields: the timestamp and the identifiers are digits, letters and hyphens, the labels are
  \<open>subtopic_\<close> and \<open>metric_\<close> followed by digits, and the text that \<open>repr\<close> gives
  for a float has only digits, a point, a sign and the letter \<open>e\<close>.
\<close>

theorem seven_commas:
  assumes "k < length (data_rows (written (main cfg en)))"
  shows "length (filter (\<lambda>c. c = CHR '','') (data_rows (written (main cfg en)) ! k)) = 7
       \<and> length (fields (data_rows (written (main cfg en)) ! k)) = 8
       \<and> CHR '','' \<notin> set (repr_float (uniform 0 100 (random en k)))"
proof -
  obtain s iv n where tg: "time_grid cfg en = Inr (s, iv, n)"
    and k: "k < reached en s iv n * length (catalog cfg en)"
    using assms by (rule data_rows_exist)
  have "CHR '','' \<notin> set (repr_float (uniform 0 100 (random en k)))"
    using repr_float_plain by (simp add: plain_def)
  then show ?thesis
    unfolding data_rows_written [OF tg]
    using k data_row_fields [OF k, of s iv] by simp
qed

theorem seven_commas_witness:
  "length (filter (\<lambda>c. c = CHR '','') (data_rows (written (main cfg0 env0)) ! 5)) = 7
   \<and> length (fields (data_rows (written (main cfg0 env0)) ! 5)) = 8
   \<and> CHR '','' \<notin> set (repr_float (uniform 0 100 (random env0 5)))"
proof -
  have "5 < length (data_rows (written (main cfg0 env0)))"
    unfolding length_data_rows_cfg0 by simp
  then show ?thesis by (rule seven_commas)
qed

text \<open>
  C8, as stated, fails. Take one tuple and a window of 739923 days with one timestamp,
  local time UTC. The run generated at 2026-11-04T12:00:00.000001 writes the header and
  then ends with \<open>ValueError\<close> at line 63, because its window starts on 0001-01-01; the
  run generated at 2026-11-05T00:00:00.5 completes. The first file has no data row, the
  second has one.
\<close>

theorem same_structure_counterexample:
  "main cfg2 env0 = Raised ValueError (Some [header])
   \<and> main cfg2 env1 = Done [header, data_line cfg2 env1 86400500000 63929347200000000 0]
   \<and> length (data_rows (written (main cfg2 env0))) = 0
   \<and> length (data_rows (written (main cfg2 env1))) = 1
   \<and> length (data_rows (written (main cfg2 env0)))
       \<noteq> length (data_rows (written (main cfg2 env1)))"
proof -
  have "length (data_rows (written (main cfg2 env0))) = 0"
    unfolding data_rows_written [OF time_grid_cfg2(1)] by (simp add: reached_cfg2)
  moreover have "length (data_rows (written (main cfg2 env1))) = 1"
    unfolding data_rows_written [OF time_grid_cfg2(2)]
    by (simp add: reached_cfg2 length_catalog_cfg2)
  ultimately show ?thesis
    using main_cfg2(1,2) by simp
qed

text \<open>
  C8, as amended. Two runs with the same configuration that both raise no exception,
  whatever their identifiers, random draws and generation instants, write files with the
  same number of data rows, the same first line, the header
  \<open>time,channel,subtopic,publisher,protocol,name,unit,value\<close>, and data rows with the
  same set of (subtopic, name) pairs.
\<close>

theorem same_structure:
  assumes "main cfg en = Done f" and "main cfg en' = Done f'"
  shows "length (data_rows f) = length (data_rows f')
       \<and> hd (file_lines f) = ''time,channel,subtopic,publisher,protocol,name,unit,value''
       \<and> hd (file_lines f') = ''time,channel,subtopic,publisher,protocol,name,unit,value''
       \<and> labels ` set (data_rows f) = labels ` set (data_rows f')"
proof -
  define h where "h = ''time,channel,subtopic,publisher,protocol,name,unit,value''"
  obtain s iv n where tg: "time_grid cfg en = Inr (s, iv, n)"
    and f: "f = header # map (data_line cfg en s iv) [0..<nat n * length (catalog cfg en)]"
    using assms(1) by (rule main_Done)
  obtain s' iv' n' where tg': "time_grid cfg en' = Inr (s', iv', n')"
    and f': "f' = header # map (data_line cfg en' s' iv') [0..<nat n' * length (catalog cfg en')]"
    using assms(2) by (rule main_Done)
  define T where "T = nat n * catalog_size cfg"
  have n: "n' = n" using tg tg' by (rule time_grid_count_same)
  have l: "file_lines f = h # map (\<lambda>k. butlast (data_line cfg en s iv k)) [0..<T]"
    "file_lines f' = h # map (\<lambda>k. butlast (data_line cfg en' s' iv' k)) [0..<T]"
    unfolding f f' file_lines_data h_def n T_def by (simp_all only: length_catalog)
  have "labels (butlast (data_line cfg en s iv k)) = labels (butlast (data_line cfg en' s' iv' k))"
    if "k < T" for k
  proof -
    have "k < nat n * length (catalog cfg en)" "k < nat n * length (catalog cfg en')"
      using that by (simp_all add: T_def length_catalog)
    then show ?thesis
      using data_line_labels [of k "nat n" cfg en] data_line_labels [of k "nat n" cfg en'] by simp
  qed
  then have "labels ` set (map (\<lambda>k. butlast (data_line cfg en s iv k)) [0..<T])
           = labels ` set (map (\<lambda>k. butlast (data_line cfg en' s' iv' k)) [0..<T])"
    by (simp add: image_image cong: image_cong_simp)
  then have "length (data_rows f) = length (data_rows f')
       \<and> hd (file_lines f) = h \<and> hd (file_lines f') = h
       \<and> labels ` set (data_rows f) = labels ` set (data_rows f')"
    unfolding data_rows_def l by simp
  then show ?thesis unfolding h_def .
qed

lemma main_cfg0_written:
  "main cfg0 env0 = Done (written (main cfg0 env0))"
  "main cfg0 env1 = Done (written (main cfg0 env1))"
  unfolding main_cfg0 main_cfg0_env1 by (simp_all add: written_def)

theorem same_structure_witness:
  "length (data_rows (written (main cfg0 env0))) = length (data_rows (written (main cfg0 env1)))
   \<and> hd (file_lines (written (main cfg0 env0)))
       = ''time,channel,subtopic,publisher,protocol,name,unit,value''
   \<and> hd (file_lines (written (main cfg0 env1)))
       = ''time,channel,subtopic,publisher,protocol,name,unit,value''
   \<and> labels ` set (data_rows (written (main cfg0 env0)))
       = labels ` set (data_rows (written (main cfg0 env1)))"
  using main_cfg0_written by (rule same_structure)

text \<open>
  C9, as stated, fails. Without metrics the catalog is empty, but the generator can still
  end with an exception. With a window of 739923 days that starts on 0001-01-01 (generated
  at 2026-11-04T12:00:00.000001, local time UTC), the loop over the one timestamp runs and
  line 63 raises \<open>ValueError\<close> after the header was written. With an interval of 0 minutes
  line 48 raises \<open>ZeroDivisionError\<close> before the file is opened.
\<close>

theorem empty_run_counterexample:
  "num_metrics cfg3 = 0
   \<and> catalog cfg3 env0 = []
   \<and> time_grid cfg3 env0 = Inr (43200000001, 63929347200000000, 1)
   \<and> main cfg3 env0 = Raised ValueError (Some [header])
   \<and> num_metrics cfg6 = 0
   \<and> main cfg6 env0 = Raised ZeroDivisionError None"
proof -
  have "length (catalog cfg3 env0) = 0" by (rule length_catalog_cfg2(2))
  then have "catalog cfg3 env0 = []" by simp
  moreover have "num_metrics cfg3 = 0" "num_metrics cfg6 = 0"
    by (simp_all add: cfg3_def cfg6_def)
  ultimately show ?thesis
    using time_grid_cfg2(3) main_cfg2(3) written_none(2) [OF time_grid_cfg6] by simp
qed

text \<open>
  C9, as amended. Take a run in which lines 46 to 48 raise nothing, so that there is a
  timestamp count \<open>n\<close>, and in which a cardinality is zero or \<open>n\<close> is zero. Its file
  is the header line and no data row, and it completes without an exception exactly when
  lines 62 and 63 raise for no timestamp of the grid (there is none when \<open>n\<close> is zero).
\<close>

theorem empty_run:
  assumes "num_channels cfg = 0 \<or> num_subtopic cfg = 0 \<or> num_publisher cfg = 0
         \<or> num_metrics cfg = 0 \<or> n = 0"
    and "time_grid cfg en = Inr (s, iv, n)"
  shows "written (main cfg en) = [header]
       \<and> file_lines (written (main cfg en))
           = [''time,channel,subtopic,publisher,protocol,name,unit,value'']
       \<and> data_rows (written (main cfg en)) = []
       \<and> (main cfg en = Done [header]
            \<longleftrightarrow> (\<forall>i. 0 \<le> i \<and> i < n \<longrightarrow> \<not> isl (grid_ns en s iv i)))"
proof -
  have z: "nat n * length (catalog cfg en) = 0"
    using assms(1) by (auto simp: length_catalog catalog_size_def)
  have "reached en s iv n * length (catalog cfg en) \<le> nat n * length (catalog cfg en)"
    using reached_le [of en s iv n] by (rule mult_le_mono1)
  then have z': "reached en s iv n * length (catalog cfg en) = 0"
    using z by simp
  have w: "written (main cfg en) = [header]"
    unfolding written_eq [OF assms(2)] z' by simp
  have r: "reached en s iv n = nat n \<longleftrightarrow> (\<forall>i. 0 \<le> i \<and> i < n \<longrightarrow> \<not> isl (grid_ns en s iv i))"
  proof
    assume a: "reached en s iv n = nat n"
    show "\<forall>i. 0 \<le> i \<and> i < n \<longrightarrow> \<not> isl (grid_ns en s iv i)"
    proof (intro allI impI)
      fix i assume i: "0 \<le> i \<and> i < n"
      then have "nat i < reached en s iv n" unfolding a by simp
      then have "\<not> isl (grid_ns en s iv (int (nat i)))" by (rule reached_ok)
      then show "\<not> isl (grid_ns en s iv i)" using i by simp
    qed
  next
    assume "\<forall>i. 0 \<le> i \<and> i < n \<longrightarrow> \<not> isl (grid_ns en s iv i)"
    then show "reached en s iv n = nat n" by (intro reached_all) simp
  qed
  have d: "main cfg en = Done [header] \<longleftrightarrow> reached en s iv n = nat n"
    unfolding main_Done_iff [OF assms(2)] z by simp
  show ?thesis
    unfolding w data_rows_def file_lines_header d r by simp
qed

theorem empty_run_witness:
  "written (main cfg1 env0) = [header]
   \<and> file_lines (written (main cfg1 env0))
       = [''time,channel,subtopic,publisher,protocol,name,unit,value'']
   \<and> data_rows (written (main cfg1 env0)) = []
   \<and> main cfg1 env0 = Done [header]"
proof -
  have c: "i = 0 \<or> i = 1" if "0 \<le> i \<and> i < 2" for i :: int
    using that by linarith
  have g: "\<forall>i. 0 \<le> i \<and> i < 2 \<longrightarrow> \<not> isl (grid_ns env0 63929304000000001 43200000000 i)"
    using c grid_ns_cfg0(1,2) by fastforce
  have m: "num_channels cfg1 = 0 \<or> num_subtopic cfg1 = 0 \<or> num_publisher cfg1 = 0
         \<or> num_metrics cfg1 = 0 \<or> (2::int) = 0"
    by (simp add: cfg1_def)
  show ?thesis
    using empty_run [OF m time_grid_cfg0(3)] g by blast
qed

end
